theory Spec2Isabelle
  imports Complex_Main "HOL-Library.Char_ord" "HOL-Library.AList" "HOL-Library.Multiset"
begin

section \<open>Strings and characters\<close>

text \<open>
  The bot reads Discord log messages, extracts employee identifiers, names and invoice
  amounts with regular expressions, keeps a table of employees with their sales and
  computes the weekly bonus of each.  The development follows the variant of
  \<^verbatim>\<open>bot.js\<close> that stores one entry per sale (functions \<^verbatim>\<open>cleanText\<close>,
  \<^verbatim>\<open>extractDNI\<close>, \<^verbatim>\<open>extractName\<close>, \<^verbatim>\<open>extractAmount\<close>, \<^verbatim>\<open>processLog\<close>,
  \<^verbatim>\<open>calculateTotals\<close>, \<^verbatim>\<open>resetWeek\<close> and the \<^verbatim>\<open>!leer\<close> command).

  A JavaScript string is a sequence of UTF-16 code units.  A \<^typ>\<open>string\<close> stands for
  a JavaScript string all of whose code units are below 256, the character
  \<^term>\<open>c\<close> being the code unit \<^term>\<open>of_char c :: nat\<close>.
\<close>

text \<open>The characters matched by \<^verbatim>\<open>\s\<close> and removed by \<^verbatim>\<open>trim()\<close>: tab, line feed,
  vertical tab, form feed, carriage return, space and no-break space (the other
  members of the class lie above code unit 255).\<close>

definition isspace :: "char \<Rightarrow> bool" where
  "isspace c = (c \<in> set [CHR 0x09, CHR 0x0A, CHR 0x0B, CHR 0x0C, CHR 0x0D, CHR 0x20, CHR 0xA0])"

text \<open>\<^verbatim>\<open>\d\<close>.\<close>

definition isdigit :: "char \<Rightarrow> bool" where
  "isdigit c = (CHR ''0'' \<le> c \<and> c \<le> CHR ''9'')"

definition isupper :: "char \<Rightarrow> bool" where
  "isupper c = (CHR ''A'' \<le> c \<and> c \<le> CHR ''Z'')"

definition islower :: "char \<Rightarrow> bool" where
  "islower c = (CHR ''a'' \<le> c \<and> c \<le> CHR ''z'')"

text \<open>\<^verbatim>\<open>[A-Z]\<close> under the flag \<^verbatim>\<open>i\<close>: without the flag \<^verbatim>\<open>u\<close> a code unit above 127
  is never identified with an ASCII letter, so the class holds the 52 ASCII letters.\<close>

definition isletter :: "char \<Rightarrow> bool" where
  "isletter c = (isupper c \<or> islower c)"

text \<open>\<^verbatim>\<open>String.prototype.toLowerCase\<close> on code units below 256: the ASCII capitals and the
  Latin-1 capitals U+00C0 to U+00DE, the multiplication sign U+00D7 apart, move up
  by 32.\<close>

definition toLowerChar :: "char \<Rightarrow> char" where
  "toLowerChar c =
     (if isupper c \<or> (CHR 0xC0 \<le> c \<and> c \<le> CHR 0xDE \<and> c \<noteq> CHR 0xD7)
      then char_of (of_char c + (32::nat)) else c)"

definition toLowerCase :: "string \<Rightarrow> string" where
  "toLowerCase s = map toLowerChar s"

text \<open>\<^verbatim>\<open>toUpperCase\<close> is only ever applied to a string of ASCII letters and digits
  (see \<open>extractDNI\<close>); on ASCII it moves the small letters down by 32.\<close>

definition toUpperChar :: "char \<Rightarrow> char" where
  "toUpperChar c = (if islower c then char_of (of_char c - (32::nat)) else c)"

definition toUpperCase :: "string \<Rightarrow> string" where
  "toUpperCase s = map toUpperChar s"

text \<open>\<^verbatim>\<open>String.prototype.trim\<close>.\<close>

definition trim :: "string \<Rightarrow> string" where
  "trim s = rev (dropWhile isspace (rev (dropWhile isspace s)))"

text \<open>\<^verbatim>\<open>s.startsWith(p)\<close> and \<^verbatim>\<open>s.includes(p)\<close>.\<close>

definition startsWith :: "string \<Rightarrow> string \<Rightarrow> bool" where
  "startsWith s p = (take (length p) s = p)"

fun includesStr :: "string \<Rightarrow> string \<Rightarrow> bool" where
  "includesStr [] p = (p = [])"
| "includesStr (x # xs) p = (startsWith (x # xs) p \<or> includesStr xs p)"

text \<open>\<^verbatim>\<open>text.replace(/\*\*/g, '')\<close>: every occurrence of two stars, from the left,
  without overlap.\<close>

fun removeStarPairs :: "string \<Rightarrow> string" where
  "removeStarPairs (a # b # s) =
     (if a = CHR ''*'' \<and> b = CHR ''*'' then removeStarPairs s else a # removeStarPairs (b # s))"
| "removeStarPairs s = s"

text \<open>\<^verbatim>\<open>text.replace(/c/g, '')\<close> for a single character \<open>c\<close>.\<close>

definition removeChar :: "char \<Rightarrow> string \<Rightarrow> string" where
  "removeChar x s = filter (\<lambda>c. c \<noteq> x) s"

text \<open>\<^verbatim>\<open>cleanText\<close>: the Discord markup is removed in the order of the source, then the
  text is trimmed.\<close>

definition cleanText :: "string \<Rightarrow> string" where
  "cleanText text =
     trim (removeChar CHR ''~'' (removeChar CHR ''_'' (removeChar CHR ''*''
       (removeChar (CHR 0x60) (removeStarPairs text)))))"

section \<open>Regular expressions\<close>

text \<open>
  The regular expressions of the source use character classes, concatenation,
  alternation, the greedy quantifiers \<^verbatim>\<open>?\<close>, \<^verbatim>\<open>*\<close>, \<^verbatim>\<open>+\<close>, \<^verbatim>\<open>{n}\<close>, the lazy
  quantifier \<^verbatim>\<open>+?\<close> and capture groups.  \<open>rmatch r s c\<close> lists, in the order in which
  the backtracking matcher of ECMAScript tries them, the ways in which \<open>r\<close> matches a
  prefix of \<open>s\<close>: each with the rest of the input and the captures.  As in ECMAScript,
  an iteration of a quantifier that consumes nothing is rejected.
\<close>

datatype regex =
    Eps
  | Cls "char \<Rightarrow> bool"
  | Seq regex regex
  | Alt regex regex
  | Opt regex
  | Star regex
  | LazyStar regex
  | Grp nat regex

type_synonym captures = "nat \<Rightarrow> string option"

function rmatch :: "regex \<Rightarrow> string \<Rightarrow> captures \<Rightarrow> (string \<times> captures) list" where
  "rmatch Eps s c = [(s, c)]"
| "rmatch (Cls p) s c = (case s of [] \<Rightarrow> [] | x # xs \<Rightarrow> if p x then [(xs, c)] else [])"
| "rmatch (Seq r1 r2) s c = concat (map (\<lambda>(s', c'). rmatch r2 s' c') (rmatch r1 s c))"
| "rmatch (Alt r1 r2) s c = rmatch r1 s c @ rmatch r2 s c"
| "rmatch (Opt r) s c = filter (\<lambda>(s', c'). length s' < length s) (rmatch r s c) @ [(s, c)]"
| "rmatch (Star r) s c =
     concat (map (\<lambda>(s', c'). rmatch (Star r) s' c')
                 (filter (\<lambda>(s', c'). length s' < length s) (rmatch r s c))) @ [(s, c)]"
| "rmatch (LazyStar r) s c =
     (s, c) # concat (map (\<lambda>(s', c'). rmatch (LazyStar r) s' c')
                          (filter (\<lambda>(s', c'). length s' < length s) (rmatch r s c)))"
| "rmatch (Grp k r) s c =
     map (\<lambda>(s', c'). (s', c'(k := Some (take (length s - length s') s)))) (rmatch r s c)"
  by pat_completeness auto
termination
  by (relation "measures [\<lambda>(r, s, c). size r, \<lambda>(r, s, c). length s]") auto

declare rmatch.simps(6,7) [simp del]

text \<open>The capture groups that occur in a regular expression.\<close>

primrec groupsOf :: "regex \<Rightarrow> nat set" where
  "groupsOf Eps = {}"
| "groupsOf (Cls p) = {}"
| "groupsOf (Seq r1 r2) = groupsOf r1 \<union> groupsOf r2"
| "groupsOf (Alt r1 r2) = groupsOf r1 \<union> groupsOf r2"
| "groupsOf (Opt r) = groupsOf r"
| "groupsOf (Star r) = groupsOf r"
| "groupsOf (LazyStar r) = groupsOf r"
| "groupsOf (Grp k r) = insert k (groupsOf r)"

text \<open>The first way of matching at the start of \<open>s\<close>, if there is one.\<close>

definition matchAt :: "regex \<Rightarrow> string \<Rightarrow> captures option" where
  "matchAt r s = (case rmatch r s (\<lambda>k. None) of [] \<Rightarrow> None | (s', c) # alts \<Rightarrow> Some c)"

text \<open>\<^verbatim>\<open>text.match(r)\<close> for a regular expression without the flag \<^verbatim>\<open>g\<close>: the match at
  the leftmost position that has one, the position after the last character included.\<close>

fun search :: "regex \<Rightarrow> string \<Rightarrow> captures option" where
  "search r [] = matchAt r []"
| "search r (x # xs) = (case matchAt r (x # xs) of Some c \<Rightarrow> Some c | None \<Rightarrow> search r xs)"

text \<open>Abbreviations for the pieces of the patterns: a literal character, a literal
  character under the flag \<^verbatim>\<open>i\<close>, a sequence, \<^verbatim>\<open>r+\<close>, \<^verbatim>\<open>r+?\<close>, \<^verbatim>\<open>r{n}\<close> and a
  literal word under the flag \<^verbatim>\<open>i\<close>.\<close>

definition Lit :: "char \<Rightarrow> regex" where
  "Lit x = Cls (\<lambda>c. c = x)"

definition LitI :: "char \<Rightarrow> regex" where
  "LitI x = Cls (\<lambda>c. toUpperChar c = toUpperChar x)"

definition seqs :: "regex list \<Rightarrow> regex" where
  "seqs rs = foldr Seq rs Eps"

definition Plus :: "regex \<Rightarrow> regex" where
  "Plus r = Seq r (Star r)"

definition LazyPlus :: "regex \<Rightarrow> regex" where
  "LazyPlus r = Seq r (LazyStar r)"

definition Rep :: "nat \<Rightarrow> regex \<Rightarrow> regex" where
  "Rep n r = seqs (replicate n r)"

definition WordI :: "string \<Rightarrow> regex" where
  "WordI w = seqs (map LitI w)"

section \<open>Numbers\<close>

text \<open>
  The numbers of JavaScript are IEEE 754 doubles.  A double is modelled by the rational
  number it holds; \<open>toDouble q\<close> is the double nearest to \<open>q\<close>, a tie going to the
  even significand of 53 bits (the default rounding of IEEE 754), and every arithmetic
  operation of the source is the exact operation followed by \<open>toDouble\<close>.  Underflow
  and overflow are left out: they need magnitudes below \<open>2^-1022\<close> or above
  \<open>2^1023\<close>, that is an amount of more than 308 digits.
\<close>

text \<open>The number of binary digits of a positive integer.\<close>

function bitlen :: "int \<Rightarrow> int" where
  "bitlen a = (if a \<le> 0 then 0 else 1 + bitlen (a div 2))"
  by pat_completeness auto
termination
  by (relation "measure nat") auto

declare bitlen.simps [simp del]

text \<open>For \<open>q > 0\<close>, the integer \<open>k\<close> with \<open>2^k \<le> q < 2^(k+1)\<close>.\<close>

definition ilog2 :: "rat \<Rightarrow> int" where
  "ilog2 q = (let (a, b) = quotient_of q; k = bitlen a - bitlen b
              in if 2 powi k \<le> q then k else k - 1)"

definition roundHalfEven :: "rat \<Rightarrow> int" where
  "roundHalfEven x = (let f = \<lfloor>x\<rfloor>; d = x - of_int f
                      in if d < 1/2 then f else if 1/2 < d then f + 1
                         else if even f then f else f + 1)"

definition toDouble :: "rat \<Rightarrow> rat" where
  "toDouble q = (if q = 0 then 0
                 else let e = ilog2 \<bar>q\<bar> - 52
                      in of_int (roundHalfEven (q / 2 powi e)) * 2 powi e)"

text \<open>The double nearest to an integer is an integer (lemma \<open>doubleOf_toDouble\<close>
  below): \<open>doubleOf n\<close> is the number that a sum or a conversion of exact value \<open>n\<close>
  leaves in a variable.  It is \<open>n\<close> itself up to \<open>2^53\<close>.\<close>

definition doubleOf :: "int \<Rightarrow> int" where
  "doubleOf n = \<lfloor>toDouble (of_int n)\<rfloor>"

section \<open>Field extraction\<close>

text \<open>\<^verbatim>\<open>parseInt(s)\<close> without a radix: leading white space is skipped, a sign is
  read, the prefix \<^verbatim>\<open>0x\<close> or \<^verbatim>\<open>0X\<close> selects radix 16, and the longest run of digits
  of the radix is the value, converted to the nearest double; \<open>None\<close> stands for
  \<^verbatim>\<open>NaN\<close>.\<close>

definition digitValue :: "char \<Rightarrow> nat" where
  "digitValue c =
     (if isdigit c then of_char c - 48
      else if islower c then of_char c - 87
      else of_char c - 55)"

definition isRadixDigit :: "nat \<Rightarrow> char \<Rightarrow> bool" where
  "isRadixDigit radix c = ((isdigit c \<or> islower c \<or> isupper c) \<and> digitValue c < radix)"

definition digitsValue :: "nat \<Rightarrow> string \<Rightarrow> int" where
  "digitsValue radix ds = foldl (\<lambda>v c. v * int radix + int (digitValue c)) 0 ds"

definition parseInt :: "string \<Rightarrow> int option" where
  "parseInt s =
     (let s1 = dropWhile isspace s;
          neg = startsWith s1 ''-'';
          s2 = (if startsWith s1 ''-'' \<or> startsWith s1 ''+'' then tl s1 else s1);
          hex = (startsWith s2 ''0x'' \<or> startsWith s2 ''0X'');
          radix = (if hex then 16 else 10);
          s3 = (if hex then drop 2 s2 else s2);
          ds = takeWhile (isRadixDigit radix) s3
      in if ds = [] then None
         else Some ((if neg then - 1 else 1) * doubleOf (digitsValue radix ds)))"

text \<open>\<^verbatim>\<open>/\[\s*([A-Z]{3}\s*\d{5})\s*\]/i\<close>\<close>

definition dniRegex :: regex where
  "dniRegex =
     seqs [Lit CHR ''['', Star (Cls isspace),
           Grp 1 (seqs [Rep 3 (Cls isletter), Star (Cls isspace), Rep 5 (Cls isdigit)]),
           Star (Cls isspace), Lit CHR '']'']"

text \<open>\<^verbatim>\<open>extractDNI\<close>: group 1 takes part in every match of the pattern; the white space
  inside it is removed and the letters are capitalised.\<close>

definition extractDNI :: "string \<Rightarrow> string option" where
  "extractDNI text =
     (case search dniRegex (cleanText text) of
        None \<Rightarrow> None
      | Some m \<Rightarrow>
          (case m 1 of
             None \<Rightarrow> None
           | Some g \<Rightarrow> Some (toUpperCase (filter (\<lambda>c. \<not> isspace c) g))))"

text \<open>\<^verbatim>\<open>/\[\s*[A-Z]{3}\s*\d{5}\s*\]\s+([^h]+?)(?:\s+ha\s+(?:retirado|guardado|enviado))/i\<close>:
  under the flag \<^verbatim>\<open>i\<close> the class \<^verbatim>\<open>[^h]\<close> excludes both \<^verbatim>\<open>h\<close> and \<^verbatim>\<open>H\<close>.\<close>

definition nameRegex :: regex where
  "nameRegex =
     seqs [Lit CHR ''['', Star (Cls isspace), Rep 3 (Cls isletter), Star (Cls isspace),
           Rep 5 (Cls isdigit), Star (Cls isspace), Lit CHR '']'', Plus (Cls isspace),
           Grp 1 (LazyPlus (Cls (\<lambda>c. toUpperChar c \<noteq> toUpperChar CHR ''h''))),
           Plus (Cls isspace), WordI ''ha'', Plus (Cls isspace),
           Alt (WordI ''retirado'') (Alt (WordI ''guardado'') (WordI ''enviado''))]"

text \<open>\<^verbatim>\<open>extractName\<close>.\<close>

definition extractName :: "string \<Rightarrow> string option" where
  "extractName text =
     (case search nameRegex (cleanText text) of
        None \<Rightarrow> None
      | Some m \<Rightarrow> (case m 1 of None \<Rightarrow> None | Some g \<Rightarrow> Some (trim g)))"

text \<open>\<^verbatim>\<open>/\$\s*(\d+(?:,\d{3})*(?:\.\d{2})?)/\<close>\<close>

definition amountRegex :: regex where
  "amountRegex =
     seqs [Lit CHR ''$'', Star (Cls isspace),
           Grp 1 (seqs [Plus (Cls isdigit),
                        Star (seqs [Lit CHR '','', Rep 3 (Cls isdigit)]),
                        Opt (seqs [Lit CHR ''.'', Rep 2 (Cls isdigit)])])]"

text \<open>\<^verbatim>\<open>extractAmount\<close>: the commas are removed from group 1 and the result goes
  through \<^verbatim>\<open>parseInt\<close>; without a match the amount is 0.  \<open>None\<close> is \<^verbatim>\<open>NaN\<close>.\<close>

definition extractAmount :: "string \<Rightarrow> int option" where
  "extractAmount text =
     (case search amountRegex (cleanText text) of
        None \<Rightarrow> Some 0
      | Some m \<Rightarrow> (case m 1 of None \<Rightarrow> None | Some g \<Rightarrow> parseInt (removeChar CHR '','' g)))"




section \<open>The employee table\<close>

text \<open>
  \<^verbatim>\<open>employees\<close> is an object used as a dictionary \<^verbatim>\<open>{ DNI: { name, sales: [] } }\<close>.
  Its keys are strings that are not array indices, so \<^verbatim>\<open>Object.entries\<close> lists them
  in the order of their insertion: the table is an association list, a new key goes
  to the end and an update keeps the position.  A sale holds the amount, the date of
  the message (\<^verbatim>\<open>createdAt.toISOString()\<close>, kept as the time stamp it renders) and the
  identifier of the message.
\<close>

record sale =
  amount :: int
  date :: int
  messageId :: string

record employee =
  name :: string
  sales :: "sale list"

record message =
  content :: string
  createdAt :: int
  msgId :: string

record state =
  employees :: "(string \<times> employee) list"
  weekStartDate :: int

definition emptyState :: "int \<Rightarrow> state" where
  "emptyState now = \<lparr>employees = [], weekStartDate = now\<rparr>"

text \<open>\<^verbatim>\<open>if (!employees[dni]) employees[dni] = e\<close>\<close>

definition createIfAbsent :: "string \<Rightarrow> employee \<Rightarrow> (string \<times> employee) list \<Rightarrow> (string \<times> employee) list" where
  "createIfAbsent dni e emps = (if map_of emps dni = None then emps @ [(dni, e)] else emps)"

text \<open>The conditions of the two \<^verbatim>\<open>if\<close> statements of \<^verbatim>\<open>processLog\<close>, on
  \<^verbatim>\<open>cleanedContent.toLowerCase()\<close>.\<close>

definition isSaleLine :: "string \<Rightarrow> bool" where
  "isSaleLine text =
     (let cleanedContent = cleanText text in
      includesStr (toLowerCase cleanedContent) ''ha pagado una factura'' \<and>
      includesStr (toLowerCase cleanedContent) ''de ['')"

definition isNameLine :: "string \<Rightarrow> bool" where
  "isNameLine text =
     (let cleanedContent = cleanText text in
      includesStr (toLowerCase cleanedContent) ''ha retirado'' \<or>
      includesStr (toLowerCase cleanedContent) ''ha guardado'' \<or>
      includesStr (toLowerCase cleanedContent) ''ha enviado'')"

text \<open>The body of the first block once the line is accepted: the employee is created
  with the identifier as name if the table has none, and the sale is pushed.\<close>

definition recordSale :: "string \<Rightarrow> sale \<Rightarrow> state \<Rightarrow> state" where
  "recordSale k ev st =
     st\<lparr>employees :=
          AList.map_entry k (\<lambda>e. e\<lparr>sales := sales e @ [ev]\<rparr>)
            (createIfAbsent k \<lparr>name = k, sales = []\<rparr> (employees st))\<rparr>"

text \<open>The body of the second block once identifier and name are there:
  \<^verbatim>\<open>if (!employees[dni]) employees[dni] = { name: name, sales: [] }; else employees[dni].name = name\<close>\<close>

definition updateName :: "string \<Rightarrow> string \<Rightarrow> state \<Rightarrow> state" where
  "updateName k nm st =
     st\<lparr>employees :=
          (if map_of (employees st) k = None
           then employees st @ [(k, \<lparr>name = nm, sales = []\<rparr>)]
           else AList.map_entry k (\<lambda>e. e\<lparr>name := nm\<rparr>) (employees st))\<rparr>"

text \<open>The first block of \<^verbatim>\<open>processLog\<close> (\<^verbatim>\<open>// Buscar factura pagada\<close>).  It answers
  \<open>Some\<close> of the new state where the source returns \<^verbatim>\<open>true\<close>, and \<open>None\<close> where
  control leaves the block without returning.  \<^verbatim>\<open>saveData\<close> writes the table to a
  file and \<^verbatim>\<open>console.log\<close> prints; neither changes the table.\<close>

definition saleBlock :: "message \<Rightarrow> state \<Rightarrow> state option" where
  "saleBlock message st =
     (if isSaleLine (content message)
      then
        (case (extractDNI (content message), extractAmount (content message)) of
           (Some k, Some amt) \<Rightarrow>
             if k \<noteq> [] \<and> amt > 0
             then Some (recordSale k
                    \<lparr>amount = amt, date = createdAt message, messageId = msgId message\<rparr> st)
             else None
         | _ \<Rightarrow> None)
      else None)"

text \<open>The second block (\<^verbatim>\<open>// Buscar nombre de empleado\<close>); the function returns
  \<^verbatim>\<open>false\<close> whatever happens in it.\<close>

definition nameBlock :: "message \<Rightarrow> state \<Rightarrow> state" where
  "nameBlock message st =
     (if isNameLine (content message)
      then
        (case (extractDNI (content message), extractName (content message)) of
           (Some k, Some nm) \<Rightarrow> if k \<noteq> [] \<and> nm \<noteq> [] then updateName k nm st else st
         | _ \<Rightarrow> st)
      else st)"

text \<open>\<^verbatim>\<open>processLog\<close>: the new state and the returned flag.  The two blocks are two
  \<^verbatim>\<open>if\<close> statements in sequence; the first returns only when it records a sale.\<close>

definition processLog :: "message \<Rightarrow> state \<Rightarrow> state \<times> bool" where
  "processLog message st =
     (case saleBlock message st of
        Some st' \<Rightarrow> (st', True)
      | None \<Rightarrow> (nameBlock message st, False))"

text \<open>\<^verbatim>\<open>resetWeek\<close>; \<open>now\<close> is \<^verbatim>\<open>new Date()\<close>.\<close>

definition resetWeek :: "int \<Rightarrow> state \<Rightarrow> state" where
  "resetWeek now st = \<lparr>employees = [], weekStartDate = now\<rparr>"

text \<open>\<^verbatim>\<open>data.sales.reduce((sum, sale) => sum + sale.amount, 0)\<close>: every addition is
  rounded to a double.\<close>

definition totalOf :: "sale list \<Rightarrow> int" where
  "totalOf ss = foldl (\<lambda>sum s. doubleOf (sum + amount s)) 0 ss"

text \<open>The sales recorded for an identifier: \<^verbatim>\<open>employees[k].sales\<close>, and nothing where
  the table has no such key.\<close>

definition salesOf :: "state \<Rightarrow> string \<Rightarrow> sale list" where
  "salesOf st k = (case map_of (employees st) k of None \<Rightarrow> [] | Some e \<Rightarrow> sales e)"

section \<open>Bonus calculation\<close>

text \<open>
  \<^verbatim>\<open>Math.round(totalSales * (CONFIG.bonusPercentage / 100))\<close> is computed on doubles:
  the quotient is rounded to a double, the product is rounded to a double, and
  \<^verbatim>\<open>Math.round\<close> takes the nearest integer, a half going up.
\<close>

text \<open>\<^verbatim>\<open>Math.round\<close>\<close>

definition mathRound :: "rat \<Rightarrow> int" where
  "mathRound x = \<lfloor>x + 1/2\<rfloor>"

text \<open>\<^verbatim>\<open>Math.round(totalSales * (CONFIG.bonusPercentage / 100))\<close>\<close>

definition bonusOf :: "int \<Rightarrow> int \<Rightarrow> int" where
  "bonusOf bonusPercentage tot =
     mathRound (toDouble (of_int tot * toDouble (of_int bonusPercentage / 100)))"

text \<open>The bonus in the words of the specification, to be compared with \<open>bonusOf\<close>:
  \<^verbatim>\<open>round(totalSales * rate / 100)\<close> on exact numbers, a half going up.\<close>

definition bonusSpec :: "int \<Rightarrow> int \<Rightarrow> int" where
  "bonusSpec rate tot = \<lfloor>of_int (tot * rate) / (100::rat) + 1 / 2\<rfloor>"

text \<open>\<^verbatim>\<open>Array.prototype.sort\<close> with a comparison function is a stable sort; for a
  comparison that is a preorder its result is the one of the stable insertion sort:
  \<open>x\<close> goes before the first \<open>y\<close> with \<open>cmp x y \<le> 0\<close> among the elements that
  followed it.\<close>

fun insertBy :: "('a \<Rightarrow> 'a \<Rightarrow> int) \<Rightarrow> 'a \<Rightarrow> 'a list \<Rightarrow> 'a list" where
  "insertBy cmp x [] = [x]"
| "insertBy cmp x (y # ys) = (if cmp x y \<le> 0 then x # y # ys else y # insertBy cmp x ys)"

definition sortBy :: "('a \<Rightarrow> 'a \<Rightarrow> int) \<Rightarrow> 'a list \<Rightarrow> 'a list" where
  "sortBy cmp xs = foldr (insertBy cmp) xs []"

text \<open>One element of \<^verbatim>\<open>results\<close>; \<open>rname\<close> is its field \<^verbatim>\<open>name\<close>.\<close>

record result =
  dni :: string
  rname :: string
  salesCount :: nat
  totalSales :: int
  bonus :: int

text \<open>The body of the loop over \<^verbatim>\<open>Object.entries(employees)\<close>.\<close>

definition resultOf :: "int \<Rightarrow> string \<times> employee \<Rightarrow> result" where
  "resultOf bonusPercentage entry =
     \<lparr>dni = fst entry, rname = name (snd entry), salesCount = length (sales (snd entry)),
      totalSales = totalOf (sales (snd entry)),
      bonus = bonusOf bonusPercentage (totalOf (sales (snd entry)))\<rparr>"

text \<open>\<^verbatim>\<open>calculateTotals\<close>, with \<^verbatim>\<open>CONFIG.bonusPercentage\<close> as a parameter.  The
  comparison \<^verbatim>\<open>b.totalSales - a.totalSales\<close> is a difference of doubles.\<close>

definition calculateTotals :: "int \<Rightarrow> state \<Rightarrow> result list" where
  "calculateTotals bonusPercentage st =
     sortBy (\<lambda>a b. doubleOf (totalSales b - totalSales a))
       (map (resultOf bonusPercentage) (employees st))"

section \<open>Reading the history (\<^verbatim>\<open>!leer\<close>)\<close>

text \<open>
  The history of the channel is the list of its messages, the newest first.
  \<^verbatim>\<open>logsChannel.messages.fetch({ limit: 100, before: lastId })\<close> answers the (at most)
  100 messages that follow the one with identifier \<^verbatim>\<open>lastId\<close> in that list, and the
  first 100 without \<^verbatim>\<open>before\<close>: a page is \<open>take 100\<close> of the part of the history
  not yet read.  \<open>limit\<close> and \<open>startDate\<close> are \<open>None\<close> where the source has \<^verbatim>\<open>null\<close>.
\<close>

text \<open>\<^verbatim>\<open>limit && totalFetched >= limit\<close>\<close>

definition limitReached :: "int option \<Rightarrow> nat \<Rightarrow> bool" where
  "limitReached limit totalFetched =
     (case limit of None \<Rightarrow> False | Some l \<Rightarrow> l \<noteq> 0 \<and> l \<le> int totalFetched)"

text \<open>The loop over one page: \<^verbatim>\<open>for (const msg of msgs.values())\<close>, with its
  \<^verbatim>\<open>continue\<close> and its \<^verbatim>\<open>break\<close>.  The pair holds \<^verbatim>\<open>messagesToProcess\<close> and
  \<^verbatim>\<open>totalFetched\<close>.\<close>

fun collectPage ::
  "int option \<Rightarrow> int option \<Rightarrow> message list \<Rightarrow> message list \<times> nat \<Rightarrow> message list \<times> nat" where
  "collectPage startDate limit [] (acc, n) = (acc, n)"
| "collectPage startDate limit (msg # msgs) (acc, n) =
     (if (case startDate of None \<Rightarrow> False | Some d \<Rightarrow> createdAt msg < d)
      then collectPage startDate limit msgs (acc, n)
      else if limitReached limit (Suc n) then (acc @ [msg], Suc n)
      else collectPage startDate limit msgs (acc @ [msg], Suc n))"

text \<open>The loop \<^verbatim>\<open>while (true)\<close> over the pages.\<close>

function fetchLoop ::
  "int option \<Rightarrow> int option \<Rightarrow> message list \<Rightarrow> message list \<times> nat \<Rightarrow> message list \<times> nat" where
  "fetchLoop startDate limit history (acc, n) =
     (if take 100 history = [] then (acc, n)
      else
        (case collectPage startDate limit (take 100 history) (acc, n) of
           (acc', n') \<Rightarrow>
             if limitReached limit n' then (acc', n')
             else if length (take 100 history) < 100 then (acc', n')
             else fetchLoop startDate limit (drop 100 history) (acc', n')))"
  by pat_completeness auto
termination
  by (relation "measure (\<lambda>(startDate, limit, history, p). length history)") auto

declare fetchLoop.simps [simp del]

text \<open>\<^verbatim>\<open>for (const msg of messagesToProcess) { if (processLog(msg)) processed++; }\<close>\<close>

fun processAll :: "message list \<Rightarrow> state \<Rightarrow> nat \<Rightarrow> state \<times> nat" where
  "processAll [] st processed = (st, processed)"
| "processAll (msg # msgs) st processed =
     (case processLog msg st of
        (st', r) \<Rightarrow> processAll msgs st' (if r then Suc processed else processed))"

text \<open>The command from the fetch on: the new state, \<^verbatim>\<open>totalFetched\<close> and
  \<^verbatim>\<open>processed\<close>.\<close>

definition readHistory :: "int option \<Rightarrow> int option \<Rightarrow> message list \<Rightarrow> state \<Rightarrow> state \<times> nat \<times> nat" where
  "readHistory startDate limit history st =
     (case fetchLoop startDate limit history ([], 0) of
        (messagesToProcess, totalFetched) \<Rightarrow>
          (case processAll (rev messagesToProcess) st 0 of
             (st', processed) \<Rightarrow> (st', totalFetched, processed)))"

datatype leerError = InvalidDate | InvalidCount | InvalidSubcommand

text \<open>\<^verbatim>\<open>!leer subCmd value\<close> for an administrator, once the arguments and the channel
  are there.  \<open>parseDate\<close> stands for \<^verbatim>\<open>value.split('/').map(Number)\<close> followed by
  \<^verbatim>\<open>new Date(year, month - 1, day, 0, 0, 0)\<close>: \<open>None\<close> where the source rejects the
  format, the time stamp of the date otherwise.\<close>

definition leer ::
  "(string \<Rightarrow> int option) \<Rightarrow> string \<Rightarrow> string \<Rightarrow> message list \<Rightarrow> state
     \<Rightarrow> leerError + state \<times> nat \<times> nat" where
  "leer parseDate subCmd val history st =
     (if subCmd = ''fecha'' then
        (case parseDate val of
           None \<Rightarrow> Inl InvalidDate
         | Some startDate \<Rightarrow> Inr (readHistory (Some startDate) None history st))
      else if subCmd = ''cantidad'' then
        (case parseInt val of
           None \<Rightarrow> Inl InvalidCount
         | Some limit \<Rightarrow>
             if limit < 1 \<or> limit > 1000 then Inl InvalidCount
             else Inr (readHistory None (Some limit) history st))
      else Inl InvalidSubcommand)"

section \<open>Runs of the bot\<close>

text \<open>The operations that change the table: a log message arrives, or the week is
  closed.  A run starts from the empty table of the source
  (\<^verbatim>\<open>let employees = {}\<close>).\<close>

datatype operation = Log message | Reset int

fun applyOp :: "state \<Rightarrow> operation \<Rightarrow> state" where
  "applyOp st (Log msg) = fst (processLog msg st)"
| "applyOp st (Reset now) = resetWeek now st"

definition run :: "operation list \<Rightarrow> state \<Rightarrow> state" where
  "run ops st = foldl applyOp st ops"

section \<open>The variant \<^verbatim>\<open>src/bot.js\<close>\<close>

text \<open>
  The other copy of the bot keeps one number per employee instead of the list of sales,
  matches the raw text (there is no \<^verbatim>\<open>cleanText\<close>, no \<^verbatim>\<open>toLowerCase\<close>, no flag \<^verbatim>\<open>i\<close>)
  and renames only employees that exist.  Its functions carry the suffix \<open>_botjs\<close>
  where the name is the one of a function above.
\<close>

text \<open>\<^verbatim>\<open>/\[([A-Z]{3}\d{5})\]/\<close>\<close>

definition dniRegex_botjs :: regex where
  "dniRegex_botjs =
     seqs [Lit CHR ''['', Grp 1 (seqs [Rep 3 (Cls isupper), Rep 5 (Cls isdigit)]), Lit CHR '']'']"

definition extractDNI_botjs :: "string \<Rightarrow> string option" where
  "extractDNI_botjs text =
     (case search dniRegex_botjs text of None \<Rightarrow> None | Some m \<Rightarrow> m 1)"

text \<open>\<^verbatim>\<open>/\[([A-Z]{3}\d{5})\]\s+([^h]+)/\<close>, of which group 2 is trimmed.\<close>

definition nameRegex_botjs :: regex where
  "nameRegex_botjs =
     seqs [Lit CHR ''['', Grp 1 (seqs [Rep 3 (Cls isupper), Rep 5 (Cls isdigit)]), Lit CHR '']'',
           Plus (Cls isspace), Grp 2 (Plus (Cls (\<lambda>c. c \<noteq> CHR ''h'')))]"

definition extractName_botjs :: "string \<Rightarrow> string option" where
  "extractName_botjs text =
     (case search nameRegex_botjs text of
        None \<Rightarrow> None
      | Some m \<Rightarrow> (case m 2 of None \<Rightarrow> None | Some g \<Rightarrow> Some (trim g)))"

text \<open>\<^verbatim>\<open>/\$(\d+)/\<close>\<close>

definition amountRegex_botjs :: regex where
  "amountRegex_botjs = seqs [Lit CHR ''$'', Grp 1 (Plus (Cls isdigit))]"

definition extractAmount_botjs :: "string \<Rightarrow> int option" where
  "extractAmount_botjs text =
     (case search amountRegex_botjs text of
        None \<Rightarrow> Some 0
      | Some m \<Rightarrow> (case m 1 of None \<Rightarrow> None | Some g \<Rightarrow> parseInt g))"

text \<open>An entry of \<^verbatim>\<open>employeeSales\<close>: \<^verbatim>\<open>{ name, sales }\<close> with \<^verbatim>\<open>sales\<close> a number.\<close>

record employeeSale =
  ename :: string
  esales :: int

text \<open>\<^verbatim>\<open>processLogMessage\<close>, on the table \<^verbatim>\<open>employeeSales\<close>.\<close>

definition processLogMessage ::
  "string \<Rightarrow> (string \<times> employeeSale) list \<Rightarrow> (string \<times> employeeSale) list \<times> bool" where
  "processLogMessage text employeeSales =
     (let accepted =
        (if includesStr text ''ha pagado una factura'' \<and> includesStr text ''de [''
         then (case (extractDNI_botjs text, extractAmount_botjs text) of
                 (Some k, Some amt) \<Rightarrow> if k \<noteq> [] \<and> amt > 0 then Some (k, amt) else None
               | _ \<Rightarrow> None)
         else None)
      in case accepted of
           Some (k, amt) \<Rightarrow>
             (AList.map_entry k (\<lambda>e. e\<lparr>esales := doubleOf (esales e + amt)\<rparr>)
                (if map_of employeeSales k = None
                 then employeeSales @ [(k, \<lparr>ename = k, esales = 0\<rparr>)]
                 else employeeSales), True)
         | None \<Rightarrow>
             (if includesStr text ''ha retirado'' \<or> includesStr text ''ha guardado''
              then (case (extractDNI_botjs text, extractName_botjs text) of
                      (Some k, Some nm) \<Rightarrow>
                        if k \<noteq> [] \<and> nm \<noteq> [] \<and> map_of employeeSales k \<noteq> None
                        then AList.map_entry k (\<lambda>e. e\<lparr>ename := nm\<rparr>) employeeSales
                        else employeeSales
                    | _ \<Rightarrow> employeeSales)
              else employeeSales, False))"

text \<open>No sale of the table has an amount of 0 or less.\<close>

definition salesPositive :: "state \<Rightarrow> bool" where
  "salesPositive st =
     list_all (\<lambda>entry. list_all (\<lambda>s. 0 < amount s) (sales (snd entry))) (employees st)"

section \<open>Facts about numbers\<close>

text \<open>The error of the rounding to a double, the doubles that a rounding leaves fixed,
  and the integers that are doubles.\<close>

lemma bitlen_bounds:
  "0 < a \<Longrightarrow> 0 < bitlen a \<and> 2 ^ nat (bitlen a - 1) \<le> a \<and> a < 2 ^ nat (bitlen a)"
proof (induction a rule: bitlen.induct)
  case (1 a)
  show ?case
  proof (cases "a = 1")
    case True
    have "bitlen 1 = 1" by (simp add: bitlen.simps [of 1] bitlen.simps [of 0])
    with True show ?thesis by simp
  next
    case False
    with "1.prems" have h: "0 < a div 2" by simp
    from "1.prems" have na: "\<not> a \<le> 0" by simp
    from "1.IH" [OF na h] have b: "0 < bitlen (a div 2)"
      "2 ^ nat (bitlen (a div 2) - 1) \<le> a div 2" "a div 2 < 2 ^ nat (bitlen (a div 2))"
      by simp_all
    have e: "bitlen a = 1 + bitlen (a div 2)" using na by (simp add: bitlen.simps [of a])
    from b(1) have n: "nat (bitlen (a div 2)) = Suc (nat (bitlen (a div 2) - 1))" by simp
    have "2 ^ nat (bitlen (a div 2)) \<le> a"
    proof -
      have "(2::int) ^ nat (bitlen (a div 2)) = 2 * 2 ^ nat (bitlen (a div 2) - 1)"
        by (subst n) simp
      also have "\<dots> \<le> 2 * (a div 2)" using b(2) by simp
      also have "\<dots> \<le> a" by simp
      finally show ?thesis .
    qed
    moreover have "a < 2 ^ nat (1 + bitlen (a div 2))"
    proof -
      have "a < 2 * (a div 2 + 1)" by simp
      also have "\<dots> \<le> 2 * 2 ^ nat (bitlen (a div 2))" using b(3) by simp
      also have "\<dots> = 2 ^ nat (1 + bitlen (a div 2))" using b(1) by (simp add: nat_add_distrib)
      finally show ?thesis .
    qed
    ultimately show ?thesis using e b(1) by simp
  qed
qed


lemma ilog2_bounds:
  assumes "0 < q"
  shows "2 powi (ilog2 q) \<le> q \<and> q < 2 powi (ilog2 q + 1)"
proof -
  obtain a b where ab: "quotient_of q = (a, b)" by (cases "quotient_of q")
  then have b: "0 < b" by (rule quotient_of_denom_pos)
  from ab have q: "q = of_int a / of_int b" by (rule quotient_of_div)
  with assms b have a: "0 < a" by (simp add: zero_less_divide_iff)
  let ?k = "bitlen a - bitlen b"
  from bitlen_bounds [OF a] have A: "0 < bitlen a" "2 ^ nat (bitlen a - 1) \<le> a" "a < 2 ^ nat (bitlen a)"
    by simp_all
  from bitlen_bounds [OF b] have B: "0 < bitlen b" "2 ^ nat (bitlen b - 1) \<le> b" "b < 2 ^ nat (bitlen b)"
    by simp_all
  have pa: "(2::rat) powi (bitlen a - 1) \<le> of_int a" "of_int a < (2::rat) powi (bitlen a)"
  proof -
    have "(2::rat) powi (bitlen a - 1) = of_int (2 ^ nat (bitlen a - 1))"
      using A(1) by (simp add: power_int_def)
    also have "\<dots> \<le> of_int a" using A(2) by (simp only: of_int_le_iff)
    finally show "(2::rat) powi (bitlen a - 1) \<le> of_int a" .
    have "(of_int a :: rat) < of_int (2 ^ nat (bitlen a))" using A(3) by (simp only: of_int_less_iff)
    also have "\<dots> = (2::rat) powi (bitlen a)" using A(1) by (simp add: power_int_def)
    finally show "of_int a < (2::rat) powi (bitlen a)" .
  qed
  have pb: "(2::rat) powi (bitlen b - 1) \<le> of_int b" "of_int b < (2::rat) powi (bitlen b)"
  proof -
    have "(2::rat) powi (bitlen b - 1) = of_int (2 ^ nat (bitlen b - 1))"
      using B(1) by (simp add: power_int_def)
    also have "\<dots> \<le> of_int b" using B(2) by (simp only: of_int_le_iff)
    finally show "(2::rat) powi (bitlen b - 1) \<le> of_int b" .
    have "(of_int b :: rat) < of_int (2 ^ nat (bitlen b))" using B(3) by (simp only: of_int_less_iff)
    also have "\<dots> = (2::rat) powi (bitlen b)" using B(1) by (simp add: power_int_def)
    finally show "of_int b < (2::rat) powi (bitlen b)" .
  qed
  have bpos: "(0::rat) < of_int b" using b by simp
  have lo: "(2::rat) powi (?k - 1) < q"
  proof -
    have "(2::rat) powi (?k - 1) * of_int b < 2 powi (?k - 1) * 2 powi (bitlen b)"
      using pb(2) by (simp add: mult_strict_left_mono)
    also have "\<dots> = 2 powi (bitlen a - 1)"
      by (simp add: power_int_add [symmetric])
    also have "\<dots> \<le> of_int a" by (rule pa(1))
    finally have "(2::rat) powi (?k - 1) * of_int b < of_int a" .
    then show ?thesis using bpos by (simp add: q pos_less_divide_eq)
  qed
  have hi: "q < (2::rat) powi (?k + 1)"
  proof -
    have "of_int a < (2::rat) powi (bitlen a)" by (rule pa(2))
    also have "\<dots> = 2 powi (?k + 1) * 2 powi (bitlen b - 1)"
      by (simp add: power_int_add [symmetric])
    also have "\<dots> \<le> 2 powi (?k + 1) * of_int b"
      using pb(1) by (simp add: mult_left_mono)
    finally have "of_int a < (2::rat) powi (?k + 1) * of_int b" .
    then show ?thesis using bpos by (simp add: q pos_divide_less_eq)
  qed
  show ?thesis
  proof (cases "2 powi ?k \<le> q")
    case True
    then have "ilog2 q = ?k" by (simp add: ilog2_def ab)
    with True hi show ?thesis by simp
  next
    case False
    then have "ilog2 q = ?k - 1" by (simp add: ilog2_def ab)
    with False lo show ?thesis by simp
  qed
qed

lemma powi_neg: "(x::rat) powi (- int n) = 1 / x ^ n"
  by (simp add: power_int_minus divide_inverse)

lemma roundHalfEven_error: "\<bar>of_int (roundHalfEven x) - x\<bar> \<le> 1 / 2"
proof -
  have f: "of_int \<lfloor>x\<rfloor> \<le> x" "x < of_int \<lfloor>x\<rfloor> + 1" by linarith+
  then show ?thesis by (auto simp: roundHalfEven_def Let_def)
qed

lemma toDouble_error:
  "\<bar>toDouble q - q\<bar> \<le> \<bar>q\<bar> / 2 ^ 53"
proof (cases "q = 0")
  case True
  then show ?thesis by (simp add: toDouble_def)
next
  case False
  let ?e = "ilog2 \<bar>q\<bar> - 52"
  let ?p = "(2::rat) powi ?e"
  have p: "0 < ?p" by simp
  from False have "0 < \<bar>q\<bar>" by simp
  from ilog2_bounds [OF this] have lo: "2 powi (ilog2 \<bar>q\<bar>) \<le> \<bar>q\<bar>" by simp
  have td: "toDouble q = of_int (roundHalfEven (q / ?p)) * ?p"
    using False by (simp add: toDouble_def Let_def)
  have "\<bar>toDouble q - q\<bar> = \<bar>of_int (roundHalfEven (q / ?p)) - q / ?p\<bar> * ?p"
  proof -
    have "toDouble q - q = (of_int (roundHalfEven (q / ?p)) - q / ?p) * ?p"
      using p by (simp add: td left_diff_distrib)
    then show ?thesis using p by (simp add: abs_mult)
  qed
  also have "\<dots> \<le> (1 / 2) * ?p"
    using roundHalfEven_error [of "q / ?p"] p by (intro mult_right_mono) simp_all
  also have "\<dots> = 2 powi (ilog2 \<bar>q\<bar>) / 2 ^ 53"
  proof -
    have "(2::rat) powi (ilog2 \<bar>q\<bar> + (- 52)) = 2 powi (ilog2 \<bar>q\<bar>) * 2 powi (- 52)"
      by (rule power_int_add) simp
    then have "(2::rat) powi ?e = 2 powi (ilog2 \<bar>q\<bar>) * 2 powi (- 52)"
      by (simp only: diff_conv_add_uminus)
    moreover have "(2::rat) powi (- 52) = 1 / 2 ^ 52"
      using powi_neg [of 2 52] by (simp only: of_nat_numeral)
    ultimately have "(2::rat) powi ?e = 2 powi (ilog2 \<bar>q\<bar>) * (1 / 2 ^ 52)"
      by (simp only:)
    then show ?thesis by simp
  qed
  also have "\<dots> \<le> \<bar>q\<bar> / 2 ^ 53" using lo by (simp add: divide_right_mono)
  finally show ?thesis .
qed


lemma ilog2_unique:
  assumes "0 < q" and "2 powi k \<le> q" and "q < 2 powi (k + 1)"
  shows "ilog2 q = k"
proof -
  from ilog2_bounds [OF assms(1)] have a: "2 powi ilog2 q \<le> q" "q < 2 powi (ilog2 q + 1)"
    by simp_all
  have "\<not> ilog2 q + 1 \<le> k"
  proof
    assume "ilog2 q + 1 \<le> k"
    then have "(2::rat) powi (ilog2 q + 1) \<le> 2 powi k" by (intro power_int_increasing) simp_all
    with a(2) assms(2) show False by linarith
  qed
  moreover have "\<not> k + 1 \<le> ilog2 q"
  proof
    assume "k + 1 \<le> ilog2 q"
    then have "(2::rat) powi (k + 1) \<le> 2 powi ilog2 q" by (intro power_int_increasing) simp_all
    with a(1) assms(3) show False by linarith
  qed
  ultimately show ?thesis by linarith
qed

lemma roundHalfEven_of_int: "roundHalfEven (of_int k) = k"
  by (simp add: roundHalfEven_def)

text \<open>A number with a significand of 53 bits is a double.\<close>

lemma toDouble_significand:
  assumes "2 ^ 52 \<le> \<bar>m\<bar>" and "\<bar>m\<bar> < 2 ^ 53"
  shows "toDouble (of_int m * 2 powi e) = of_int m * 2 powi e"
proof -
  let ?q = "of_int m * (2::rat) powi e"
  have p: "(0::rat) < 2 powi e" by simp
  from assms(1) have m0: "m \<noteq> 0" by auto
  then have q0: "?q \<noteq> 0" by simp
  have aq: "\<bar>?q\<bar> = of_int \<bar>m\<bar> * 2 powi e" by (simp add: abs_mult)
  have lo: "(2::rat) powi (e + 52) \<le> \<bar>?q\<bar>"
  proof -
    have "(2::rat) powi (e + 52) = 2 powi e * 2 powi 52" by (rule power_int_add) simp
    also have "\<dots> = 2 ^ 52 * 2 powi e" by simp
    also have "\<dots> \<le> of_int \<bar>m\<bar> * 2 powi e"
    proof (rule mult_right_mono)
      have "(of_int (2 ^ 52) :: rat) \<le> of_int \<bar>m\<bar>" using assms(1) by (simp only: of_int_le_iff)
      then show "(2::rat) ^ 52 \<le> of_int \<bar>m\<bar>" by simp
    qed simp
    finally show ?thesis by (simp only: aq)
  qed
  have hi: "\<bar>?q\<bar> < (2::rat) powi (e + 52 + 1)"
  proof -
    have "of_int \<bar>m\<bar> * (2::rat) powi e < 2 ^ 53 * 2 powi e"
    proof (rule mult_strict_right_mono)
      have "(of_int \<bar>m\<bar> :: rat) < of_int (2 ^ 53)" using assms(2) by (simp only: of_int_less_iff)
      then show "(of_int \<bar>m\<bar> :: rat) < 2 ^ 53" by simp
    qed simp
    also have "\<dots> = 2 powi e * 2 powi 53" by simp
    also have "\<dots> = (2::rat) powi (e + 53)" by (rule power_int_add [symmetric]) simp
    finally show ?thesis by (simp only: aq) (simp add: add.assoc)
  qed
  from q0 have "0 < \<bar>?q\<bar>" by simp
  from ilog2_unique [OF this lo hi] have il: "ilog2 \<bar>?q\<bar> - 52 = e" by simp
  have "?q / 2 powi e = of_int m" by simp
  then show ?thesis using q0
    unfolding toDouble_def Let_def il by (simp only: if_False roundHalfEven_of_int)
qed


text \<open>Every double other than 0 has a significand of 53 bits.\<close>

lemma toDouble_repr:
  assumes "q \<noteq> 0"
  shows "\<exists>m e. 2 ^ 52 \<le> \<bar>m\<bar> \<and> \<bar>m\<bar> < 2 ^ 53 \<and> toDouble q = of_int m * 2 powi e"
proof -
  define e where "e = ilog2 \<bar>q\<bar> - 52"
  define x where "x = q / 2 powi e"
  define M where "M = roundHalfEven x"
  have p: "(0::rat) < 2 powi e" by simp
  from assms have "0 < \<bar>q\<bar>" by simp
  from ilog2_bounds [OF this] have b: "2 powi (e + 52) \<le> \<bar>q\<bar>" "\<bar>q\<bar> < 2 powi (e + 52 + 1)"
    by (simp_all add: e_def)
  have e52: "(2::rat) powi (e + 52) = 2 powi e * 2 ^ 52"
  proof -
    have "(2::rat) powi (e + 52) = 2 powi e * 2 powi 52" by (rule power_int_add) simp
    then show ?thesis by simp
  qed
  have e53: "(2::rat) powi (e + 52 + 1) = 2 powi e * 2 ^ 53"
  proof -
    have "(2::rat) powi (e + 53) = 2 powi e * 2 powi 53" by (rule power_int_add) simp
    then show ?thesis by (simp add: add.assoc)
  qed
  have ax: "\<bar>x\<bar> = \<bar>q\<bar> / 2 powi e" by (simp add: x_def)
  have xl: "2 ^ 52 \<le> \<bar>x\<bar>"
    using b(1) p unfolding ax e52 by (simp add: pos_le_divide_eq mult.commute)
  have xh: "\<bar>x\<bar> < 2 ^ 53"
    using b(2) p unfolding ax e53 by (simp add: pos_divide_less_eq mult.commute)
  have err: "\<bar>of_int M - x\<bar> \<le> 1 / 2" unfolding M_def by (rule roundHalfEven_error)
  have "(2::rat) ^ 52 - 1 / 2 \<le> \<bar>of_int M\<bar>" using err xl by linarith
  then have "(of_int (2 ^ 52 - 1) :: rat) < of_int \<bar>M\<bar>" by simp
  then have "2 ^ 52 - 1 < \<bar>M\<bar>" by (simp only: of_int_less_iff)
  then have Ml: "2 ^ 52 \<le> \<bar>M\<bar>" by simp
  have "\<bar>of_int M\<bar> < (2::rat) ^ 53 + 1 / 2" using err xh by linarith
  then have "(of_int \<bar>M\<bar> :: rat) < of_int (2 ^ 53 + 1)" by simp
  then have "\<bar>M\<bar> < 2 ^ 53 + 1" by (simp only: of_int_less_iff)
  then have Mh: "\<bar>M\<bar> \<le> 2 ^ 53" by simp
  have td: "toDouble q = of_int M * 2 powi e"
    using assms by (simp add: toDouble_def Let_def M_def x_def e_def)
  show ?thesis
  proof (cases "\<bar>M\<bar> < 2 ^ 53")
    case True
    with Ml td show ?thesis by blast
  next
    case False
    with Mh have M: "\<bar>M\<bar> = 2 ^ 53" by simp
    define m where "m = M div 2"
    from M have "M = 2 ^ 53 \<or> M = - (2 ^ 53)" by linarith
    then have m: "M = 2 * m" "\<bar>m\<bar> = 2 ^ 52" unfolding m_def by auto
    have "(2::rat) powi (e + 1) = 2 powi e * 2 powi 1" by (rule power_int_add) simp
    then have "of_int m * (2::rat) powi (e + 1) = of_int M * 2 powi e" by (simp add: m(1))
    with td have "toDouble q = of_int m * 2 powi (e + 1)" by simp
    moreover from m(2) have "2 ^ 52 \<le> \<bar>m\<bar>" "\<bar>m\<bar> < 2 ^ 53" by simp_all
    ultimately show ?thesis by blast
  qed
qed

lemma toDouble_idem: "toDouble (toDouble q) = toDouble q"
proof (cases "q = 0")
  case True
  then show ?thesis by (simp add: toDouble_def)
next
  case False
  from toDouble_repr [OF this] obtain m e where
    m: "2 ^ 52 \<le> \<bar>m\<bar>" "\<bar>m\<bar> < 2 ^ 53" and t: "toDouble q = of_int m * 2 powi e" by blast
  from toDouble_significand [OF m, of e] show ?thesis by (simp only: t)
qed

text \<open>The doubles are closed under negation and doubling.\<close>

lemma toDouble_fix_neg:
  assumes "toDouble x = x"
  shows "toDouble (- x) = - x"
proof (cases "x = 0")
  case True
  then show ?thesis by (simp add: toDouble_def)
next
  case False
  from toDouble_repr [OF this] assms obtain m e where
    m: "2 ^ 52 \<le> \<bar>m\<bar>" "\<bar>m\<bar> < 2 ^ 53" and t: "x = of_int m * 2 powi e" by auto
  from m have "2 ^ 52 \<le> \<bar>- m\<bar>" "\<bar>- m\<bar> < 2 ^ 53" by simp_all
  from toDouble_significand [OF this, of e] show ?thesis by (simp add: t)
qed

lemma toDouble_fix_twice:
  assumes "toDouble x = x"
  shows "toDouble (2 * x) = 2 * x"
proof (cases "x = 0")
  case True
  then show ?thesis by (simp add: toDouble_def)
next
  case False
  from toDouble_repr [OF this] assms obtain m e where
    m: "2 ^ 52 \<le> \<bar>m\<bar>" "\<bar>m\<bar> < 2 ^ 53" and t: "x = of_int m * 2 powi e" by auto
  have "(2::rat) powi (e + 1) = 2 powi e * 2 powi 1" by (rule power_int_add) simp
  then have "2 * x = of_int m * 2 powi (e + 1)" by (simp add: t)
  with toDouble_significand [OF m, of "e + 1"] show ?thesis by simp
qed

text \<open>The double nearest to an integer is an integer, and the integer itself up to
  \<open>2^53\<close>.\<close>

lemma toDouble_of_int_exact:
  assumes "n \<noteq> 0" and "ilog2 \<bar>of_int n\<bar> \<le> 52"
  shows "toDouble (of_int n) = of_int n"
proof -
  define j where "j = nat (52 - ilog2 \<bar>of_int n :: rat\<bar>)"
  have e: "ilog2 \<bar>of_int n :: rat\<bar> - 52 = - int j" using assms(2) by (simp add: j_def)
  have "(of_int n :: rat) / 2 powi (- int j) = of_int n * 2 ^ j"
    by (simp only: powi_neg) simp
  also have "\<dots> = of_int (n * 2 ^ j)" by simp
  finally have q: "(of_int n :: rat) / 2 powi (- int j) = of_int (n * 2 ^ j)" .
  have "toDouble (of_int n) = of_int (n * 2 ^ j) * 2 powi (- int j)"
    using assms(1) unfolding toDouble_def Let_def e q roundHalfEven_of_int by simp
  also have "\<dots> = of_int n" by (simp only: powi_neg) simp
  finally show ?thesis .
qed

lemma ilog2_of_int_small:
  assumes "n \<noteq> 0" and "\<bar>n\<bar> < 2 ^ 53"
  shows "ilog2 \<bar>of_int n\<bar> \<le> 52"
proof (rule ccontr)
  assume "\<not> ilog2 \<bar>of_int n :: rat\<bar> \<le> 52"
  then have "53 \<le> ilog2 \<bar>of_int n :: rat\<bar>" by simp
  then have "(2::rat) powi 53 \<le> 2 powi ilog2 \<bar>of_int n :: rat\<bar>"
    by (intro power_int_increasing) simp_all
  moreover from assms(1) have "(0::rat) < \<bar>of_int n\<bar>" by simp
  from ilog2_bounds [OF this] have "2 powi ilog2 \<bar>of_int n :: rat\<bar> \<le> \<bar>of_int n :: rat\<bar>" by simp
  ultimately have "(2::rat) ^ 53 \<le> \<bar>of_int n\<bar>" by simp
  then have "(of_int (2 ^ 53) :: rat) \<le> of_int \<bar>n\<bar>" by simp
  then have "2 ^ 53 \<le> \<bar>n\<bar>" by (simp only: of_int_le_iff)
  with assms(2) show False by simp
qed

lemma toDouble_of_int:
  "\<exists>k. toDouble (of_int n) = of_int k"
proof (cases "n = 0")
  case True
  then have "toDouble (of_int n) = of_int 0" by (simp add: toDouble_def)
  then show ?thesis by blast
next
  case False
  show ?thesis
  proof (cases "ilog2 \<bar>of_int n :: rat\<bar> \<le> 52")
    case True
    from toDouble_of_int_exact [OF False True] show ?thesis by blast
  next
    case e: False
    define j where "j = nat (ilog2 \<bar>of_int n :: rat\<bar> - 52)"
    have j: "ilog2 \<bar>of_int n :: rat\<bar> - 52 = int j" using e by (simp add: j_def)
    define M where "M = roundHalfEven (of_int n / 2 powi int j)"
    have "toDouble (of_int n) = of_int M * 2 powi int j"
      using False unfolding toDouble_def Let_def j M_def by simp
    also have "\<dots> = of_int (M * 2 ^ j)" by simp
    finally show ?thesis by blast
  qed
qed

lemma doubleOf_toDouble: "of_int (doubleOf n) = toDouble (of_int n)"
proof -
  from toDouble_of_int [of n] obtain k where "toDouble (of_int n) = of_int k" by blast
  then show ?thesis by (simp add: doubleOf_def)
qed

lemma doubleOf_fix: "doubleOf n = n \<longleftrightarrow> toDouble (of_int n) = of_int n"
proof
  assume "doubleOf n = n"
  with doubleOf_toDouble [of n] show "toDouble (of_int n) = of_int n" by simp
next
  assume "toDouble (of_int n) = of_int n"
  then show "doubleOf n = n" by (simp add: doubleOf_def)
qed

lemma doubleOf_small:
  assumes "\<bar>n\<bar> < 2 ^ 53"
  shows "doubleOf n = n"
proof (cases "n = 0")
  case True
  then show ?thesis by (simp add: doubleOf_def toDouble_def)
next
  case False
  from toDouble_of_int_exact [OF False ilog2_of_int_small [OF False assms]]
  show ?thesis by (simp only: doubleOf_fix)
qed

lemma doubleOf_idem: "doubleOf (doubleOf n) = doubleOf n"
  unfolding doubleOf_fix doubleOf_toDouble by (rule toDouble_idem)

lemma doubleOf_neg: "doubleOf n = n \<Longrightarrow> doubleOf (- n) = - n"
  unfolding doubleOf_fix using toDouble_fix_neg [of "of_int n"] by simp

lemma doubleOf_twice: "doubleOf n = n \<Longrightarrow> doubleOf (2 * n) = 2 * n"
  unfolding doubleOf_fix using toDouble_fix_twice [of "of_int n"] by simp

lemma doubleOf_error: "\<bar>of_int (doubleOf n) - of_int n\<bar> \<le> \<bar>of_int n :: rat\<bar> / 2 ^ 53"
  unfolding doubleOf_toDouble by (rule toDouble_error)

lemma doubleOf_le:
  assumes "\<bar>n\<bar> \<le> 2 ^ 53"
  shows "doubleOf n = n"
proof (cases "\<bar>n\<bar> < 2 ^ 53")
  case True
  then show ?thesis by (rule doubleOf_small)
next
  case False
  with assms have n: "\<bar>n\<bar> = 2 ^ 53" by simp
  define m where "m = n div 2"
  from n have "n = 2 ^ 53 \<or> n = - (2 ^ 53)" by linarith
  then have m: "n = 2 * m" "\<bar>m\<bar> = 2 ^ 52" unfolding m_def by auto
  from m(2) have "2 ^ 52 \<le> \<bar>m\<bar>" "\<bar>m\<bar> < 2 ^ 53" by simp_all
  from toDouble_significand [OF this, of 1] have "toDouble (of_int n) = of_int n"
    by (simp add: m(1) mult.commute)
  then show ?thesis by (simp only: doubleOf_fix)
qed

text \<open>Rounding keeps the sign.\<close>

lemma doubleOf_sign: "doubleOf n \<le> 0 \<longleftrightarrow> n \<le> 0"
proof -
  have e: "\<bar>of_int (doubleOf n) - of_int n\<bar> \<le> \<bar>of_int n :: rat\<bar> / 2 ^ 53"
    by (rule doubleOf_error)
  show ?thesis
  proof (cases "n \<le> 0")
    case True
    then have "(of_int n :: rat) \<le> 0" by simp
    then have "\<bar>of_int n :: rat\<bar> / 2 ^ 53 \<le> - of_int n" by simp
    with e have "(of_int (doubleOf n) :: rat) \<le> 0" by linarith
    then have "doubleOf n \<le> 0" by simp
    with True show ?thesis by simp
  next
    case False
    then have p: "(0::rat) < of_int n" by simp
    then have "\<bar>of_int n :: rat\<bar> / 2 ^ 53 < of_int n" by simp
    with e have "(0::rat) < of_int (doubleOf n)" by linarith
    then have "0 < doubleOf n" by simp
    with False show ?thesis by simp
  qed
qed

section \<open>Facts about the matcher\<close>

text \<open>What it means for a pair of a rest and of captures to be among the ways of
  matching, constructor by constructor; the shape of what the groups of the identifier
  and name patterns capture.\<close>

lemma seqs_Nil: "seqs [] = Eps"
  by (simp add: seqs_def)

lemma seqs_Cons: "seqs (r # rs) = Seq r (seqs rs)"
  by (simp add: seqs_def)

lemma take_consumed: "take (length (pre @ t) - length t) (pre @ t) = pre"
  by simp

lemma in_rmatch_Eps: "(t, c') \<in> set (rmatch Eps s c) \<longleftrightarrow> t = s \<and> c' = c"
  by auto

lemma in_rmatch_Cls:
  "(t, c') \<in> set (rmatch (Cls p) s c) \<longleftrightarrow> (\<exists>x. s = x # t \<and> p x \<and> c' = c)"
  by (cases s) auto

lemma in_rmatch_Seq:
  "(t, c') \<in> set (rmatch (Seq r1 r2) s c) \<longleftrightarrow>
     (\<exists>s1 c1. (s1, c1) \<in> set (rmatch r1 s c) \<and> (t, c') \<in> set (rmatch r2 s1 c1))"
  by auto

lemma in_rmatch_Alt:
  "(t, c') \<in> set (rmatch (Alt r1 r2) s c) \<longleftrightarrow>
     (t, c') \<in> set (rmatch r1 s c) \<or> (t, c') \<in> set (rmatch r2 s c)"
  by auto

lemma in_rmatch_Grp:
  "(t, c') \<in> set (rmatch (Grp k r) s c) \<longleftrightarrow>
     (\<exists>c1. (t, c1) \<in> set (rmatch r s c) \<and> c' = c1(k := Some (take (length s - length t) s)))"
  by auto

lemma rmatch_Star_Cls_Cons:
  "rmatch (Star (Cls p)) (x # xs) c =
     (if p x then rmatch (Star (Cls p)) xs c else []) @ [(x # xs, c)]"
  by (subst rmatch.simps(6)) simp

lemma rmatch_Star_Cls_Nil: "rmatch (Star (Cls p)) [] c = [([], c)]"
  by (subst rmatch.simps(6)) simp

lemma rmatch_LazyStar_Cls_Nil: "rmatch (LazyStar (Cls p)) [] c = [([], c)]"
  by (subst rmatch.simps(7)) simp

lemma in_rmatch_Star_Cls:
  "(t, c') \<in> set (rmatch (Star (Cls p)) s c) \<Longrightarrow>
     c' = c \<and> (\<exists>pre. s = pre @ t \<and> (\<forall>x \<in> set pre. p x))"
proof (induction s)
  case Nil
  then show ?case by (simp add: rmatch_Star_Cls_Nil)
next
  case (Cons x xs)
  from Cons.prems have "(p x \<and> (t, c') \<in> set (rmatch (Star (Cls p)) xs c)) \<or> (t = x # xs \<and> c' = c)"
    unfolding rmatch_Star_Cls_Cons by (auto split: if_splits)
  then show ?case
  proof
    assume a: "p x \<and> (t, c') \<in> set (rmatch (Star (Cls p)) xs c)"
    with Cons.IH obtain pre where "c' = c" "xs = pre @ t" "\<forall>y \<in> set pre. p y" by blast
    with a have "x # xs = (x # pre) @ t \<and> (\<forall>y \<in> set (x # pre). p y)" by simp
    with \<open>c' = c\<close> show ?thesis by blast
  next
    assume "t = x # xs \<and> c' = c"
    then have "x # xs = [] @ t \<and> (\<forall>y \<in> set []. p y)" by simp
    with \<open>t = x # xs \<and> c' = c\<close> show ?thesis by blast
  qed
qed

lemma rmatch_LazyStar_Cls_Cons:
  "rmatch (LazyStar (Cls p)) (x # xs) c =
     (x # xs, c) # (if p x then rmatch (LazyStar (Cls p)) xs c else [])"
  by (subst rmatch.simps(7)) simp

lemma in_rmatch_LazyStar_Cls:
  "(t, c') \<in> set (rmatch (LazyStar (Cls p)) s c) \<Longrightarrow>
     c' = c \<and> (\<exists>pre. s = pre @ t \<and> (\<forall>x \<in> set pre. p x))"
proof (induction s)
  case Nil
  then show ?case by (simp add: rmatch_LazyStar_Cls_Nil)
next
  case (Cons x xs)
  from Cons.prems have "(p x \<and> (t, c') \<in> set (rmatch (LazyStar (Cls p)) xs c)) \<or> (t = x # xs \<and> c' = c)"
    unfolding rmatch_LazyStar_Cls_Cons by (auto split: if_splits)
  then show ?case
  proof
    assume a: "p x \<and> (t, c') \<in> set (rmatch (LazyStar (Cls p)) xs c)"
    with Cons.IH obtain pre where "c' = c" "xs = pre @ t" "\<forall>y \<in> set pre. p y" by blast
    with a have "x # xs = (x # pre) @ t \<and> (\<forall>y \<in> set (x # pre). p y)" by simp
    with \<open>c' = c\<close> show ?thesis by blast
  next
    assume "t = x # xs \<and> c' = c"
    then have "x # xs = [] @ t \<and> (\<forall>y \<in> set []. p y)" by simp
    with \<open>t = x # xs \<and> c' = c\<close> show ?thesis by blast
  qed
qed

lemma matchAt_Some:
  "matchAt r s = Some c \<Longrightarrow> \<exists>t. (t, c) \<in> set (rmatch r s (\<lambda>k. None))"
proof -
  assume a: "matchAt r s = Some c"
  then obtain t alts where "rmatch r s (\<lambda>k. None) = (t, c) # alts"
    by (auto simp: matchAt_def split: list.splits)
  then have "(t, c) \<in> set (rmatch r s (\<lambda>k. None))" by simp
  then show ?thesis by blast
qed

lemma search_Some:
  "search r s = Some c \<Longrightarrow> \<exists>u t. (t, c) \<in> set (rmatch r u (\<lambda>k. None))"
proof (induction s)
  case Nil
  then show ?case using matchAt_Some by fastforce
next
  case (Cons x xs)
  show ?case
  proof (cases "matchAt r (x # xs)")
    case None
    with Cons show ?thesis by simp
  next
    case (Some c0)
    with Cons.prems have "matchAt r (x # xs) = Some c" by simp
    then show ?thesis using matchAt_Some by blast
  qed
qed

lemma isdigit_not_space: "isdigit x \<Longrightarrow> \<not> isspace x"
  by (auto simp: isdigit_def isspace_def less_eq_char_def)

lemma isletter_not_space: "isletter x \<Longrightarrow> \<not> isspace x"
  by (auto simp: isletter_def isupper_def islower_def isspace_def less_eq_char_def)

lemma in_rmatch_Star_Cls_E:
  assumes "(t, c') \<in> set (rmatch (Star (Cls p)) s c)"
  obtains pre where "c' = c" "s = pre @ t" "\<forall>x \<in> set pre. p x"
  using in_rmatch_Star_Cls [OF assms] by blast

lemma dni_inner:
  assumes "(t, c') \<in> set (rmatch (seqs [Rep 3 (Cls isletter), Star (Cls isspace), Rep 5 (Cls isdigit)]) u c)"
  shows "\<exists>l1 l2 l3 ws d1 d2 d3 d4 d5. u = l1 # l2 # l3 # ws @ [d1, d2, d3, d4, d5] @ t \<and>
           isletter l1 \<and> isletter l2 \<and> isletter l3 \<and> (\<forall>x \<in> set ws. isspace x) \<and>
           isdigit d1 \<and> isdigit d2 \<and> isdigit d3 \<and> isdigit d4 \<and> isdigit d5"
proof -
  have rep3: "Rep 3 (Cls isletter) = Seq (Cls isletter) (Seq (Cls isletter) (Seq (Cls isletter) Eps))"
    by (simp add: Rep_def seqs_Cons seqs_Nil numeral_3_eq_3)
  have rep5: "Rep 5 (Cls isdigit) =
      Seq (Cls isdigit) (Seq (Cls isdigit) (Seq (Cls isdigit) (Seq (Cls isdigit) (Seq (Cls isdigit) Eps))))"
    by (simp add: Rep_def seqs_Cons seqs_Nil eval_nat_numeral)
  from assms obtain s1 c1 s2 c2 where
    a1: "(s1, c1) \<in> set (rmatch (Rep 3 (Cls isletter)) u c)" and
    a2: "(s2, c2) \<in> set (rmatch (Star (Cls isspace)) s1 c1)" and
    a3: "(t, c') \<in> set (rmatch (Rep 5 (Cls isdigit)) s2 c2)"
    by (auto simp only: seqs_Cons seqs_Nil in_rmatch_Seq in_rmatch_Eps)
  from a1 obtain l1 l2 l3 where u: "u = l1 # l2 # l3 # s1" and l: "isletter l1" "isletter l2" "isletter l3"
    unfolding rep3 by (auto simp only: in_rmatch_Seq in_rmatch_Eps in_rmatch_Cls)
  from a2 obtain ws where s1: "s1 = ws @ s2" and ws: "\<forall>x \<in> set ws. isspace x"
    by (rule in_rmatch_Star_Cls_E)
  from a3 obtain d1 d2 d3 d4 d5 where s2: "s2 = d1 # d2 # d3 # d4 # d5 # t"
    and d: "isdigit d1" "isdigit d2" "isdigit d3" "isdigit d4" "isdigit d5"
    unfolding rep5 by (auto simp only: in_rmatch_Seq in_rmatch_Eps in_rmatch_Cls)
  from u s1 s2 l ws d show ?thesis by auto
qed

lemma dni_group:
  assumes "(t, c') \<in> set (rmatch dniRegex u c)"
  shows "\<exists>l1 l2 l3 ws d1 d2 d3 d4 d5. c' 1 = Some (l1 # l2 # l3 # ws @ [d1, d2, d3, d4, d5]) \<and>
           isletter l1 \<and> isletter l2 \<and> isletter l3 \<and> (\<forall>x \<in> set ws. isspace x) \<and>
           isdigit d1 \<and> isdigit d2 \<and> isdigit d3 \<and> isdigit d4 \<and> isdigit d5"
proof -
  let ?inner = "seqs [Rep 3 (Cls isletter), Star (Cls isspace), Rep 5 (Cls isdigit)]"
  from assms obtain s1 c1 s2 c2 s3 c3 s4 c4 where
    a1: "(s1, c1) \<in> set (rmatch (Lit CHR ''['') u c)" and
    a2: "(s2, c2) \<in> set (rmatch (Star (Cls isspace)) s1 c1)" and
    a3: "(s3, c3) \<in> set (rmatch (Grp 1 ?inner) s2 c2)" and
    a4: "(s4, c4) \<in> set (rmatch (Star (Cls isspace)) s3 c3)" and
    a5: "(t, c') \<in> set (rmatch (Lit CHR '']'') s4 c4)"
    unfolding dniRegex_def
    by (auto simp only: seqs_Cons seqs_Nil in_rmatch_Seq in_rmatch_Eps)
  from a3 obtain c0 where b: "(s3, c0) \<in> set (rmatch ?inner s2 c2)"
    and c3: "c3 = c0(1 := Some (take (length s2 - length s3) s2))"
    by (auto simp only: in_rmatch_Grp)
  from dni_inner [OF b] obtain l1 l2 l3 ws d1 d2 d3 d4 d5 where
    s2: "s2 = l1 # l2 # l3 # ws @ [d1, d2, d3, d4, d5] @ s3" and
    p: "isletter l1" "isletter l2" "isletter l3" "\<forall>x \<in> set ws. isspace x"
       "isdigit d1" "isdigit d2" "isdigit d3" "isdigit d4" "isdigit d5"
    by blast
  have "s2 = (l1 # l2 # l3 # ws @ [d1, d2, d3, d4, d5]) @ s3"
    by (simp add: s2)
  then have "take (length s2 - length s3) s2 = l1 # l2 # l3 # ws @ [d1, d2, d3, d4, d5]"
    by (simp only: take_consumed)
  with c3 have "c3 1 = Some (l1 # l2 # l3 # ws @ [d1, d2, d3, d4, d5])" by simp
  moreover from a4 have "c4 = c3" by (rule in_rmatch_Star_Cls_E)
  moreover from a5 have "c' = c4" by (auto simp only: Lit_def in_rmatch_Cls)
  ultimately have "c' 1 = Some (l1 # l2 # l3 # ws @ [d1, d2, d3, d4, d5])" by simp
  with p show ?thesis by blast
qed

lemma extractDNI_shape:
  assumes "extractDNI text = Some k"
  shows "\<exists>l1 l2 l3 d1 d2 d3 d4 d5. k = map toUpperChar [l1, l2, l3, d1, d2, d3, d4, d5] \<and>
           isletter l1 \<and> isletter l2 \<and> isletter l3 \<and>
           isdigit d1 \<and> isdigit d2 \<and> isdigit d3 \<and> isdigit d4 \<and> isdigit d5"
proof -
  from assms obtain m g where m: "search dniRegex (cleanText text) = Some m" and g: "m 1 = Some g"
    and k: "k = toUpperCase (filter (\<lambda>c. \<not> isspace c) g)"
    by (auto simp: extractDNI_def split: option.splits)
  from search_Some [OF m] obtain u t where "(t, m) \<in> set (rmatch dniRegex u (\<lambda>k. None))" by blast
  from dni_group [OF this] g obtain l1 l2 l3 ws d1 d2 d3 d4 d5 where
    g': "g = l1 # l2 # l3 # ws @ [d1, d2, d3, d4, d5]" and
    p: "isletter l1" "isletter l2" "isletter l3" "\<forall>x \<in> set ws. isspace x"
       "isdigit d1" "isdigit d2" "isdigit d3" "isdigit d4" "isdigit d5"
    by auto
  from p(4) have "filter (\<lambda>c. \<not> isspace c) ws = []" by (induction ws) auto
  with p have "filter (\<lambda>c. \<not> isspace c) g = [l1, l2, l3, d1, d2, d3, d4, d5]"
    by (simp add: g' isletter_not_space isdigit_not_space)
  with k have "k = map toUpperChar [l1, l2, l3, d1, d2, d3, d4, d5]" by (simp add: toUpperCase_def)
  with p show ?thesis by blast
qed

lemma extractDNI_nonempty: "extractDNI text = Some k \<Longrightarrow> k \<noteq> []"
  using extractDNI_shape by fastforce

lemma rmatch_captures:
  "(t, c') \<in> set (rmatch r s c) \<Longrightarrow> k \<notin> groupsOf r \<Longrightarrow> c' k = c k"
proof (induction r s c arbitrary: t c' rule: rmatch.induct)
  case (1 s c)
  then show ?case by simp
next
  case (2 p s c)
  then show ?case by (auto simp only: in_rmatch_Cls)
next
  case (3 r1 r2 s c)
  from "3.prems"(1) obtain s1 c1 where a: "(s1, c1) \<in> set (rmatch r1 s c)"
    and b: "(t, c') \<in> set (rmatch r2 s1 c1)"
    by (auto simp only: in_rmatch_Seq)
  from "3.prems"(2) have k: "k \<notin> groupsOf r1" "k \<notin> groupsOf r2" by simp_all
  from "3.IH"(1) [OF a k(1)] "3.IH"(2) [OF a refl b k(2)] show ?case by simp
next
  case (4 r1 r2 s c)
  then show ?case by (auto simp only: in_rmatch_Alt groupsOf.simps Un_iff)
next
  case (5 r s c)
  then show ?case by auto
next
  case (6 r s c)
  from "6.prems"(1) have
    "(\<exists>s1 c1. (s1, c1) \<in> set (rmatch r s c) \<and> length s1 < length s \<and>
        (t, c') \<in> set (rmatch (Star r) s1 c1)) \<or> (t = s \<and> c' = c)"
    by (subst (asm) rmatch.simps(6)) auto
  then show ?case
  proof
    assume "\<exists>s1 c1. (s1, c1) \<in> set (rmatch r s c) \<and> length s1 < length s \<and>
        (t, c') \<in> set (rmatch (Star r) s1 c1)"
    then obtain s1 c1 where a: "(s1, c1) \<in> set (rmatch r s c)" and l: "length s1 < length s"
      and b: "(t, c') \<in> set (rmatch (Star r) s1 c1)" by blast
    from "6.prems"(2) have k: "k \<notin> groupsOf r" by simp
    from a l have m: "(s1, c1) \<in> set (filter (\<lambda>(s', c'). length s' < length s) (rmatch r s c))"
      by simp
    from "6.IH"(1) [OF a k] "6.IH"(2) [OF m refl b "6.prems"(2)] show ?thesis by simp
  next
    assume "t = s \<and> c' = c"
    then show ?thesis by simp
  qed
next
  case (7 r s c)
  from "7.prems"(1) have
    "(\<exists>s1 c1. (s1, c1) \<in> set (rmatch r s c) \<and> length s1 < length s \<and>
        (t, c') \<in> set (rmatch (LazyStar r) s1 c1)) \<or> (t = s \<and> c' = c)"
    by (subst (asm) rmatch.simps(7)) auto
  then show ?case
  proof
    assume "\<exists>s1 c1. (s1, c1) \<in> set (rmatch r s c) \<and> length s1 < length s \<and>
        (t, c') \<in> set (rmatch (LazyStar r) s1 c1)"
    then obtain s1 c1 where a: "(s1, c1) \<in> set (rmatch r s c)" and l: "length s1 < length s"
      and b: "(t, c') \<in> set (rmatch (LazyStar r) s1 c1)" by blast
    from "7.prems"(2) have k: "k \<notin> groupsOf r" by simp
    from a l have m: "(s1, c1) \<in> set (filter (\<lambda>(s', c'). length s' < length s) (rmatch r s c))"
      by simp
    from "7.IH"(1) [OF a k] "7.IH"(2) [OF m refl b "7.prems"(2)] show ?thesis by simp
  next
    assume "t = s \<and> c' = c"
    then show ?thesis by simp
  qed
next
  case (8 k' r s c)
  from "8.prems"(1) obtain c1 where a: "(t, c1) \<in> set (rmatch r s c)"
    and c': "c' = c1(k' := Some (take (length s - length t) s))"
    by (auto simp only: in_rmatch_Grp)
  from "8.prems"(2) have "k \<noteq> k'" "k \<notin> groupsOf r" by simp_all
  with "8.IH" [OF a] c' show ?case by simp
qed

lemma in_rmatch_seqs_append:
  "(t, c') \<in> set (rmatch (seqs (as @ bs)) s c) \<longleftrightarrow>
     (\<exists>s1 c1. (s1, c1) \<in> set (rmatch (seqs as) s c) \<and> (t, c') \<in> set (rmatch (seqs bs) s1 c1))"
proof (induction as arbitrary: s c)
  case Nil
  then show ?case by (simp add: seqs_Nil)
next
  case (Cons a as)
  show ?case
    unfolding append_Cons seqs_Cons in_rmatch_Seq Cons.IH by blast
qed

lemma toUpperChar_h: "toUpperChar CHR ''h'' = CHR ''H''" "toUpperChar CHR ''H'' = CHR ''H''"
  by code_simp+

lemma notH_class:
  "toUpperChar x \<noteq> toUpperChar CHR ''h'' \<Longrightarrow> x \<noteq> CHR ''h'' \<and> x \<noteq> CHR ''H''"
  using toUpperChar_h by auto

lemma in_rmatch_LazyStar_Cls_E:
  assumes "(t, c') \<in> set (rmatch (LazyStar (Cls p)) s c)"
  obtains pre where "c' = c" "s = pre @ t" "\<forall>x \<in> set pre. p x"
  using in_rmatch_LazyStar_Cls [OF assms] by blast

lemma name_group:
  assumes "(t, c') \<in> set (rmatch nameRegex u c)"
  shows "\<exists>g. c' 1 = Some g \<and> (\<forall>x \<in> set g. toUpperChar x \<noteq> toUpperChar CHR ''h'')"
proof -
  let ?notH = "\<lambda>c. toUpperChar c \<noteq> toUpperChar CHR ''h''"
  let ?A = "[Lit CHR ''['', Star (Cls isspace), Rep 3 (Cls isletter), Star (Cls isspace),
           Rep 5 (Cls isdigit), Star (Cls isspace), Lit CHR '']'', Plus (Cls isspace)]"
  let ?B = "[Plus (Cls isspace), WordI ''ha'', Plus (Cls isspace),
           Alt (WordI ''retirado'') (Alt (WordI ''guardado'') (WordI ''enviado''))]"
  have split: "nameRegex = seqs (?A @ Grp 1 (LazyPlus (Cls ?notH)) # ?B)"
    by (simp add: nameRegex_def)
  from assms obtain s1 c1 s2 c2 where
    a1: "(s2, c2) \<in> set (rmatch (Grp 1 (LazyPlus (Cls ?notH))) s1 c1)" and
    a2: "(t, c') \<in> set (rmatch (seqs ?B) s2 c2)"
    unfolding split in_rmatch_seqs_append seqs_Cons [of "Grp 1 (LazyPlus (Cls ?notH))"] in_rmatch_Seq
    by blast
  from a1 obtain c0 where b: "(s2, c0) \<in> set (rmatch (LazyPlus (Cls ?notH)) s1 c1)"
    and c2: "c2 = c0(1 := Some (take (length s1 - length s2) s1))"
    by (auto simp only: in_rmatch_Grp)
  from b obtain x s3 c3 where s1: "s1 = x # s3" and x: "?notH x"
    and d: "(s2, c0) \<in> set (rmatch (LazyStar (Cls ?notH)) s3 c3)"
    unfolding LazyPlus_def by (auto simp only: in_rmatch_Seq in_rmatch_Cls)
  from d obtain pre where s3: "s3 = pre @ s2" and pre: "\<forall>y \<in> set pre. ?notH y"
    by (rule in_rmatch_LazyStar_Cls_E)
  have "s1 = (x # pre) @ s2" by (simp add: s1 s3)
  then have "take (length s1 - length s2) s1 = x # pre" by (simp only: take_consumed)
  with c2 have g: "c2 1 = Some (x # pre)" by simp
  have "groupsOf (seqs ?B) = {}"
    by (simp add: seqs_Cons seqs_Nil Plus_def WordI_def LitI_def)
  then have "1 \<notin> groupsOf (seqs ?B)" by simp
  from rmatch_captures [OF a2 this] g have "c' 1 = Some (x # pre)" by simp
  with x pre show ?thesis by simp
qed

lemma set_trim: "set (trim s) \<subseteq> set s"
proof
  fix x
  assume "x \<in> set (trim s)"
  then have "x \<in> set (dropWhile isspace (rev (dropWhile isspace s)))"
    by (simp add: trim_def)
  then have "x \<in> set (rev (dropWhile isspace s))" by (rule set_dropWhileD)
  then have "x \<in> set (dropWhile isspace s)" by simp
  then show "x \<in> set s" by (rule set_dropWhileD)
qed

lemma extractName_no_h:
  assumes "extractName text = Some n"
  shows "CHR ''h'' \<notin> set n \<and> CHR ''H'' \<notin> set n"
proof -
  from assms obtain m g where m: "search nameRegex (cleanText text) = Some m" and g: "m 1 = Some g"
    and n: "n = trim g"
    by (auto simp: extractName_def split: option.splits)
  from search_Some [OF m] obtain u t where "(t, m) \<in> set (rmatch nameRegex u (\<lambda>k. None))" by blast
  from name_group [OF this] g have "\<forall>x \<in> set g. toUpperChar x \<noteq> toUpperChar CHR ''h''" by simp
  then have "\<forall>x \<in> set g. x \<noteq> CHR ''h'' \<and> x \<noteq> CHR ''H''" using notH_class by blast
  with set_trim [of g] n show ?thesis by auto
qed














text \<open>The identifier pattern on a bracketed token with white space in the three places
  where the pattern allows it: the greedy stars take all of it, and the first way of
  matching captures the letters, the inner white space and the digits.\<close>

lemma star_greedy_first:
  "\<forall>x \<in> set w. p x \<Longrightarrow> \<not> p y \<Longrightarrow>
   \<exists>alts. rmatch (Star (Cls p)) (w @ y # s) c = (y # s, c) # alts"
proof (induction w)
  case Nil
  then show ?case by (simp add: rmatch_Star_Cls_Cons)
next
  case (Cons x w)
  then obtain alts where "rmatch (Star (Cls p)) (w @ y # s) c = (y # s, c) # alts" by auto
  with Cons.prems show ?case by (simp add: rmatch_Star_Cls_Cons)
qed

lemma seq_first:
  assumes "rmatch r1 s c = (s1, c1) # alts1" and "rmatch r2 s1 c1 = x # alts2"
  shows "\<exists>alts. rmatch (Seq r1 r2) s c = x # alts"
  using assms by simp

lemma dni_inner_first:
  assumes "isletter l1" "isletter l2" "isletter l3" "\<forall>x \<in> set w. isspace x"
    "isdigit d1" "isdigit d2" "isdigit d3" "isdigit d4" "isdigit d5"
  shows "\<exists>alts. rmatch (seqs [Rep 3 (Cls isletter), Star (Cls isspace), Rep 5 (Cls isdigit)])
            (l1 # l2 # l3 # w @ d1 # d2 # d3 # d4 # d5 # s) c = (s, c) # alts"
proof -
  have a: "rmatch (Rep 3 (Cls isletter)) (l1 # l2 # l3 # w @ d1 # d2 # d3 # d4 # d5 # s) c =
      (w @ d1 # d2 # d3 # d4 # d5 # s, c) # []"
    using assms(1-3) by (simp add: Rep_def seqs_Cons seqs_Nil numeral_3_eq_3)
  from star_greedy_first [of w isspace d1 "d2 # d3 # d4 # d5 # s" c] assms(4,5) isdigit_not_space
  obtain alts1 where b: "rmatch (Star (Cls isspace)) (w @ d1 # d2 # d3 # d4 # d5 # s) c =
      (d1 # d2 # d3 # d4 # d5 # s, c) # alts1" by blast
  have d: "rmatch (seqs [Rep 5 (Cls isdigit)]) (d1 # d2 # d3 # d4 # d5 # s) c = (s, c) # []"
    using assms(5-9) by (simp add: Rep_def seqs_Cons seqs_Nil eval_nat_numeral)
  from seq_first [OF b d] obtain alts2 where
    e: "rmatch (Seq (Star (Cls isspace)) (seqs [Rep 5 (Cls isdigit)])) (w @ d1 # d2 # d3 # d4 # d5 # s) c =
      (s, c) # alts2" by blast
  from seq_first [OF a e] show ?thesis by (simp only: seqs_Cons)
qed

lemma dniRegex_first:
  assumes "isletter l1" "isletter l2" "isletter l3" "isdigit d1" "isdigit d2" "isdigit d3"
    "isdigit d4" "isdigit d5"
    "\<forall>x \<in> set w1. isspace x" "\<forall>x \<in> set w2. isspace x" "\<forall>x \<in> set w3. isspace x"
  shows "\<exists>m. matchAt dniRegex
            (CHR ''['' # w1 @ l1 # l2 # l3 # w2 @ d1 # d2 # d3 # d4 # d5 # w3 @ CHR '']'' # s) = Some m \<and>
           m 1 = Some (l1 # l2 # l3 # w2 @ [d1, d2, d3, d4, d5])"
proof -
  let ?c = "\<lambda>k::nat. None :: string option"
  let ?g = "l1 # l2 # l3 # w2 @ [d1, d2, d3, d4, d5]"
  let ?s3 = "w3 @ CHR '']'' # s"
  let ?s2 = "l1 # l2 # l3 # w2 @ d1 # d2 # d3 # d4 # d5 # ?s3"
  let ?inner = "seqs [Rep 3 (Cls isletter), Star (Cls isspace), Rep 5 (Cls isdigit)]"
  have nb: "\<not> isspace CHR '']''" by code_simp
  have r5: "rmatch (seqs [Lit CHR '']'']) (CHR '']'' # s) (?c(1 := Some ?g)) = (s, ?c(1 := Some ?g)) # []"
    by (simp add: seqs_Cons seqs_Nil Lit_def)
  from star_greedy_first [of w3 isspace "CHR '']''" s "?c(1 := Some ?g)"] assms(11) nb
  obtain a4 where r4: "rmatch (Star (Cls isspace)) ?s3 (?c(1 := Some ?g)) = (CHR '']'' # s, ?c(1 := Some ?g)) # a4"
    by blast
  from seq_first [OF r4 r5] obtain a45 where
    r45: "rmatch (seqs [Star (Cls isspace), Lit CHR '']'']) ?s3 (?c(1 := Some ?g)) = (s, ?c(1 := Some ?g)) # a45"
    by (auto simp only: seqs_Cons)
  from dni_inner_first [OF assms(1-3) assms(10) assms(4-8), of ?s3 ?c]
  obtain a3 where i: "rmatch ?inner ?s2 ?c = (?s3, ?c) # a3" by blast
  have "?s2 = ?g @ ?s3" by simp
  then have tk: "take (length ?s2 - length ?s3) ?s2 = ?g" by (simp only: take_consumed)
  have "rmatch (Grp 1 ?inner) ?s2 ?c =
      (?s3, ?c(1 := Some (take (length ?s2 - length ?s3) ?s2))) #
      map (\<lambda>(s', c'). (s', c'(1 := Some (take (length ?s2 - length s') ?s2)))) a3"
    by (simp only: rmatch.simps(8) i list.map prod.case)
  then have r3: "rmatch (Grp 1 ?inner) ?s2 ?c = (?s3, ?c(1 := Some ?g)) #
      map (\<lambda>(s', c'). (s', c'(1 := Some (take (length ?s2 - length s') ?s2)))) a3"
    by (simp only: tk)
  from seq_first [OF r3 r45] obtain a345 where
    r345: "rmatch (seqs [Grp 1 ?inner, Star (Cls isspace), Lit CHR '']'']) ?s2 ?c = (s, ?c(1 := Some ?g)) # a345"
    by (auto simp only: seqs_Cons)
  from star_greedy_first [of w1 isspace l1 "l2 # l3 # w2 @ d1 # d2 # d3 # d4 # d5 # ?s3" ?c]
    assms(9) assms(1) isletter_not_space
  obtain a2 where r2: "rmatch (Star (Cls isspace)) (w1 @ ?s2) ?c = (?s2, ?c) # a2" by blast
  from seq_first [OF r2 r345] obtain a2345 where
    r2345: "rmatch (seqs [Star (Cls isspace), Grp 1 ?inner, Star (Cls isspace), Lit CHR '']'']) (w1 @ ?s2) ?c =
      (s, ?c(1 := Some ?g)) # a2345"
    by (auto simp only: seqs_Cons)
  have r1: "rmatch (Lit CHR ''['') (CHR ''['' # w1 @ ?s2) ?c = (w1 @ ?s2, ?c) # []"
    by (simp add: Lit_def)
  from seq_first [OF r1 r2345] obtain a where
    "rmatch dniRegex (CHR ''['' # w1 @ ?s2) ?c = (s, ?c(1 := Some ?g)) # a"
    unfolding dniRegex_def by (auto simp only: seqs_Cons)
  then have "matchAt dniRegex (CHR ''['' # w1 @ ?s2) = Some (?c(1 := Some ?g))"
    by (simp add: matchAt_def)
  then show ?thesis by simp
qed

lemma removeStarPairs_id: "CHR ''*'' \<notin> set s \<Longrightarrow> removeStarPairs s = s"
  by (induction s rule: removeStarPairs.induct) auto

lemma removeChar_id: "x \<notin> set s \<Longrightarrow> removeChar x s = s"
  by (simp add: removeChar_def filter_id_conv) blast

lemma trim_id: "\<not> isspace x \<Longrightarrow> \<not> isspace y \<Longrightarrow> trim (x # mid @ [y]) = x # mid @ [y]"
  by (simp add: trim_def)

lemma cleanText_id:
  assumes "CHR ''*'' \<notin> set (x # mid @ [y])" "CHR 0x60 \<notin> set (x # mid @ [y])"
    "CHR ''_'' \<notin> set (x # mid @ [y])" "CHR ''~'' \<notin> set (x # mid @ [y])"
    "\<not> isspace x" "\<not> isspace y"
  shows "cleanText (x # mid @ [y]) = x # mid @ [y]"
  unfolding cleanText_def
  by (simp only: removeStarPairs_id [OF assms(1)] removeChar_id [OF assms(2)]
      removeChar_id [OF assms(1)] removeChar_id [OF assms(3)] removeChar_id [OF assms(4)]
      trim_id [OF assms(5,6)])

lemma no_markup:
  "isletter x \<or> isdigit x \<or> isspace x \<Longrightarrow>
   x \<noteq> CHR ''*'' \<and> x \<noteq> CHR 0x60 \<and> x \<noteq> CHR ''_'' \<and> x \<noteq> CHR ''~''"
  by (auto simp: isletter_def isupper_def islower_def isdigit_def isspace_def less_eq_char_def)

lemma toUpperChar_digit: "isdigit x \<Longrightarrow> toUpperChar x = x"
  by (auto simp: toUpperChar_def isdigit_def islower_def less_eq_char_def)

lemma extractDNI_token:
  assumes "isletter l1" "isletter l2" "isletter l3" "isdigit d1" "isdigit d2" "isdigit d3"
    "isdigit d4" "isdigit d5"
    "\<forall>x \<in> set w1. isspace x" "\<forall>x \<in> set w2. isspace x" "\<forall>x \<in> set w3. isspace x"
  shows "extractDNI (''['' @ w1 @ [l1, l2, l3] @ w2 @ [d1, d2, d3, d4, d5] @ w3 @ '']'') =
           Some (map toUpperChar [l1, l2, l3] @ [d1, d2, d3, d4, d5])"
proof -
  let ?mid = "w1 @ [l1, l2, l3] @ w2 @ [d1, d2, d3, d4, d5] @ w3"
  let ?t = "''['' @ w1 @ [l1, l2, l3] @ w2 @ [d1, d2, d3, d4, d5] @ w3 @ '']''"
  have t: "?t = CHR ''['' # ?mid @ [CHR '']'']" by simp
  have mid: "\<forall>x \<in> set ?mid. isletter x \<or> isdigit x \<or> isspace x"
    using assms by auto
  then have nm: "\<forall>x \<in> set ?mid. x \<noteq> CHR ''*'' \<and> x \<noteq> CHR 0x60 \<and> x \<noteq> CHR ''_'' \<and> x \<noteq> CHR ''~''"
    using no_markup by blast
  have br: "\<not> isspace CHR ''[''" "\<not> isspace CHR '']''" by code_simp+
  have "cleanText (CHR ''['' # ?mid @ [CHR '']'']) = CHR ''['' # ?mid @ [CHR '']'']"
    using nm by (intro cleanText_id br) auto
  then have c: "cleanText ?t = CHR ''['' # w1 @ l1 # l2 # l3 # w2 @ d1 # d2 # d3 # d4 # d5 # w3 @ CHR '']'' # []"
    by simp
  from dniRegex_first [OF assms, of "[]"] obtain m where
    m: "matchAt dniRegex (CHR ''['' # w1 @ l1 # l2 # l3 # w2 @ d1 # d2 # d3 # d4 # d5 # w3 @ CHR '']'' # []) = Some m"
    and g: "m 1 = Some (l1 # l2 # l3 # w2 @ [d1, d2, d3, d4, d5])" by blast
  from m have sm: "search dniRegex (cleanText ?t) = Some m"
    unfolding c by simp
  have "filter (\<lambda>c. \<not> isspace c) w2 = []" using assms(10) by (induction w2) auto
  then have f: "filter (\<lambda>c. \<not> isspace c) (l1 # l2 # l3 # w2 @ [d1, d2, d3, d4, d5]) =
      [l1, l2, l3, d1, d2, d3, d4, d5]"
    using assms(1-8) by (simp add: isletter_not_space isdigit_not_space)
  have "extractDNI ?t = Some (toUpperCase [l1, l2, l3, d1, d2, d3, d4, d5])"
    unfolding extractDNI_def by (simp only: sm g option.case f)
  then show ?thesis using assms(4-8) by (simp add: toUpperCase_def toUpperChar_digit)
qed


















section \<open>Properties of the field extraction\<close>

text \<open>
  C2, as stated: each of \<^verbatim>\<open>[ a b c 1 2 3 4 5 ]\<close>, \<^verbatim>\<open>[ABC12345]\<close> and \<^verbatim>\<open>[abc 12345]\<close>
  is normalised to \<^verbatim>\<open>ABC12345\<close> by the identifier extraction.  This fails on the
  first input: the pattern asks for three adjacent letters and five adjacent digits,
  so white space between the letters (or between the digits) prevents the match.
\<close>

theorem extractDNI_spaced_letters_counterexample:
  "extractDNI ''[ a b c 1 2 3 4 5 ]'' \<noteq> Some ''ABC12345''"
  by code_simp

text \<open>
  C2, amended: identifier extraction ignores the case of the letters and the white
  space after the opening bracket, between the three letters and the five digits, and
  before the closing bracket: a bracketed token of three letters and five digits with
  any white space in these three places gives the letters in capitals followed by the
  digits, so \<^verbatim>\<open>[ABC12345]\<close> and \<^verbatim>\<open>[abc 12345]\<close> give \<^verbatim>\<open>ABC12345\<close>.  White space between
  the letters or between the digits prevents the match: \<^verbatim>\<open>[ a b c 1 2 3 4 5 ]\<close> gives
  null.
\<close>

theorem extractDNI_normalises:
  "(isletter l1 \<and> isletter l2 \<and> isletter l3 \<and>
    isdigit d1 \<and> isdigit d2 \<and> isdigit d3 \<and> isdigit d4 \<and> isdigit d5 \<and>
    (\<forall>x \<in> set w1. isspace x) \<and> (\<forall>x \<in> set w2. isspace x) \<and> (\<forall>x \<in> set w3. isspace x) \<longrightarrow>
      extractDNI (''['' @ w1 @ [l1, l2, l3] @ w2 @ [d1, d2, d3, d4, d5] @ w3 @ '']'') =
        Some (map toUpperChar [l1, l2, l3] @ [d1, d2, d3, d4, d5])) \<and>
   extractDNI ''[ABC12345]'' = Some ''ABC12345'' \<and>
   extractDNI ''[abc 12345]'' = Some ''ABC12345'' \<and>
   extractDNI ''[ a b c 1 2 3 4 5 ]'' = None"
proof -
  have "isletter l1 \<and> isletter l2 \<and> isletter l3 \<and>
    isdigit d1 \<and> isdigit d2 \<and> isdigit d3 \<and> isdigit d4 \<and> isdigit d5 \<and>
    (\<forall>x \<in> set w1. isspace x) \<and> (\<forall>x \<in> set w2. isspace x) \<and> (\<forall>x \<in> set w3. isspace x) \<longrightarrow>
      extractDNI (''['' @ w1 @ [l1, l2, l3] @ w2 @ [d1, d2, d3, d4, d5] @ w3 @ '']'') =
        Some (map toUpperChar [l1, l2, l3] @ [d1, d2, d3, d4, d5])"
    by (intro impI, elim conjE, rule extractDNI_token; assumption)
  moreover have "extractDNI ''[ABC12345]'' = Some ''ABC12345'' \<and>
      extractDNI ''[abc 12345]'' = Some ''ABC12345'' \<and>
      extractDNI ''[ a b c 1 2 3 4 5 ]'' = None"
    by code_simp
  ultimately show ?thesis by (rule conjI)
qed

text \<open>The token \<^verbatim>\<open>[ abc  12345 ]\<close>.\<close>

theorem extractDNI_normalises_witness:
  "extractDNI ''[ abc  12345 ]'' = Some ''ABC12345''"
proof -
  have h: "isletter CHR ''a'' \<and> isletter CHR ''b'' \<and> isletter CHR ''c'' \<and>
    isdigit CHR ''1'' \<and> isdigit CHR ''2'' \<and> isdigit CHR ''3'' \<and> isdigit CHR ''4'' \<and> isdigit CHR ''5'' \<and>
    (\<forall>x \<in> set '' ''. isspace x) \<and> (\<forall>x \<in> set ''  ''. isspace x) \<and> (\<forall>x \<in> set '' ''. isspace x)"
    by code_simp
  have u: "toUpperChar CHR ''a'' = CHR ''A''" "toUpperChar CHR ''b'' = CHR ''B''"
    "toUpperChar CHR ''c'' = CHR ''C''" by code_simp+
  note t = extractDNI_normalises [of "CHR ''a''" "CHR ''b''" "CHR ''c''" "CHR ''1''" "CHR ''2''"
      "CHR ''3''" "CHR ''4''" "CHR ''5''" "'' ''" "''  ''" "'' ''"]
  from t [THEN conjunct1, THEN mp, OF h]
  have "extractDNI (''['' @ '' '' @ ''abc'' @ ''  '' @ ''12345'' @ '' '' @ '']'') =
      Some (map toUpperChar ''abc'' @ ''12345'')" .
  then show ?thesis by (simp only: u list.map append.simps)
qed

text \<open>The match is the leftmost one: an earlier \<^verbatim>\<open>$\<close> followed by a digit is the amount.\<close>

lemma extractAmount_leftmost:
  "extractAmount ''propina $5 y factura $1,234.99'' = Some 5 \<and>
   extractAmount ''propina $ y factura $1,234.99'' = Some 1234"
  by code_simp



section \<open>Facts about the table\<close>

lemma map_of_recordSale:
  "map_of (employees (recordSale k ev st)) k' =
     (if k' = k
      then Some (case map_of (employees st) k of
                   None \<Rightarrow> \<lparr>name = k, sales = [ev]\<rparr>
                 | Some e \<Rightarrow> e\<lparr>sales := sales e @ [ev]\<rparr>)
      else map_of (employees st) k')"
  by (auto simp: recordSale_def createIfAbsent_def map_of_map_entry map_add_def
      split: option.splits)

lemma salesOf_recordSale:
  "salesOf (recordSale k ev st) k' = (if k' = k then salesOf st k @ [ev] else salesOf st k')"
  by (simp add: salesOf_def map_of_recordSale split: option.splits)

lemma weekStartDate_recordSale: "weekStartDate (recordSale k ev st) = weekStartDate st"
  by (simp add: recordSale_def)

lemma map_of_updateName:
  "map_of (employees (updateName k nm st)) k' =
     (if k' = k
      then Some (case map_of (employees st) k of
                   None \<Rightarrow> \<lparr>name = nm, sales = []\<rparr>
                 | Some e \<Rightarrow> e\<lparr>name := nm\<rparr>)
      else map_of (employees st) k')"
  by (auto simp: updateName_def map_of_map_entry map_add_def split: option.splits)

lemma salesOf_updateName: "salesOf (updateName k nm st) k' = salesOf st k'"
  by (simp add: salesOf_def map_of_updateName split: option.splits)

lemma saleBlock_accepted:
  assumes "isSaleLine (content m)" "extractDNI (content m) = Some k"
    "extractAmount (content m) = Some a" "0 < a"
  shows "saleBlock m st =
           Some (recordSale k \<lparr>amount = a, date = createdAt m, messageId = msgId m\<rparr> st)"
  using assms extractDNI_nonempty [OF assms(2)] by (simp add: saleBlock_def)

lemma saleBlock_rejected:
  assumes "\<not> (isSaleLine (content m) \<and> extractDNI (content m) \<noteq> None \<and>
              (\<exists>a. extractAmount (content m) = Some a \<and> 0 < a))"
  shows "saleBlock m st = None"
  using assms by (auto simp: saleBlock_def split: option.splits)

lemma saleBlock_Some:
  assumes "saleBlock m st = Some st'"
  shows "\<exists>k a. 0 < a \<and> st' = recordSale k \<lparr>amount = a, date = createdAt m, messageId = msgId m\<rparr> st"
  using assms by (auto simp: saleBlock_def split: option.splits if_splits)

lemma nameBlock_cases:
  "nameBlock m st = st \<or>
   (\<exists>k nm. isNameLine (content m) \<and> extractDNI (content m) = Some k \<and>
      extractName (content m) = Some nm \<and> nm \<noteq> [] \<and> nameBlock m st = updateName k nm st)"
  by (auto simp: nameBlock_def split: option.splits)

lemma nameBlock_updates:
  assumes "isNameLine (content m)" "extractDNI (content m) = Some k"
    "extractName (content m) = Some nm" "nm \<noteq> []"
  shows "nameBlock m st = updateName k nm st"
  using assms extractDNI_nonempty [OF assms(2)] by (simp add: nameBlock_def)

lemma parseInt_double:
  assumes "parseInt s = Some a"
  shows "doubleOf a = a"
proof -
  from assms obtain n where "a = doubleOf n \<or> a = - doubleOf n"
    by (auto simp: parseInt_def Let_def split: if_splits)
  then show ?thesis
  proof
    assume "a = doubleOf n"
    then show ?thesis by (simp add: doubleOf_idem)
  next
    assume "a = - doubleOf n"
    then show ?thesis by (simp add: doubleOf_neg doubleOf_idem)
  qed
qed

lemma extractAmount_double:
  assumes "extractAmount text = Some a"
  shows "doubleOf a = a"
proof (cases "search amountRegex (cleanText text)")
  case None
  with assms have "a = 0" by (simp add: extractAmount_def)
  then show ?thesis by (simp add: doubleOf_small)
next
  case (Some m)
  with assms obtain g where "parseInt (removeChar CHR '','' g) = Some a"
    by (auto simp: extractAmount_def split: option.splits)
  then show ?thesis by (rule parseInt_double)
qed

lemma totalOf_append:
  "totalOf (xs @ ys) = foldl (\<lambda>sum s. doubleOf (sum + amount s)) (totalOf xs) ys"
  by (simp add: totalOf_def)

lemma foldl_amount:
  "0 \<le> z \<Longrightarrow> \<forall>s \<in> set ss. 0 \<le> amount s \<Longrightarrow> z + sum_list (map amount ss) \<le> 2 ^ 53 \<Longrightarrow>
   foldl (\<lambda>sum s. doubleOf (sum + amount s)) z ss = z + sum_list (map amount ss)"
proof (induction ss arbitrary: z)
  case Nil
  then show ?case by simp
next
  case (Cons s ss)
  from Cons.prems(2) have a: "0 \<le> amount s" and r: "\<forall>t \<in> set ss. 0 \<le> amount t" by simp_all
  from r have "0 \<le> sum_list (map amount ss)" by (intro sum_list_nonneg) auto
  with Cons.prems(1,3) a have "\<bar>z + amount s\<bar> \<le> 2 ^ 53" by simp
  then have d: "doubleOf (z + amount s) = z + amount s" by (rule doubleOf_le)
  from Cons.prems(1) a have "0 \<le> z + amount s" by simp
  from Cons.IH [OF this r] Cons.prems(3) show ?case by (simp add: d)
qed

text \<open>The total is the exact sum as long as the sum does not exceed \<open>2^53\<close>.\<close>

lemma totalOf_sum:
  "\<forall>s \<in> set ss. 0 \<le> amount s \<Longrightarrow> sum_list (map amount ss) \<le> 2 ^ 53 \<Longrightarrow>
   totalOf ss = sum_list (map amount ss)"
  unfolding totalOf_def using foldl_amount [of 0 ss] by simp

text \<open>Beyond \<open>2^53\<close> it is not: three sales of 9007199254740992, 1 and 1.\<close>

lemma totalOf_rounds:
  "totalOf [\<lparr>amount = 9007199254740992, date = 1, messageId = ''m1''\<rparr>,
            \<lparr>amount = 1, date = 2, messageId = ''m2''\<rparr>,
            \<lparr>amount = 1, date = 3, messageId = ''m3''\<rparr>] = 9007199254740992"
  by code_simp

lemma in_map_entry:
  "(k', e') \<in> set (AList.map_entry k f xs) \<Longrightarrow>
     (k', e') \<in> set xs \<or> (\<exists>e. (k, e) \<in> set xs \<and> k' = k \<and> e' = f e)"
  by (induction xs) (auto split: if_splits)

lemma salesPositive_iff:
  "salesPositive st \<longleftrightarrow> (\<forall>(k, e) \<in> set (employees st). \<forall>s \<in> set (sales e). 0 < amount s)"
  by (auto simp: salesPositive_def list_all_iff)

lemma salesPositive_recordSale:
  assumes "salesPositive st" "0 < amount ev"
  shows "salesPositive (recordSale k ev st)"
  unfolding salesPositive_iff
proof (clarify)
  fix k' e' s
  assume a: "(k', e') \<in> set (employees (recordSale k ev st))" and s: "s \<in> set (sales e')"
  let ?xs = "createIfAbsent k \<lparr>name = k, sales = []\<rparr> (employees st)"
  have xs: "\<forall>(k, e) \<in> set ?xs. \<forall>s \<in> set (sales e). 0 < amount s"
    using assms(1) by (auto simp: salesPositive_iff createIfAbsent_def)
  from a have "(k', e') \<in> set (AList.map_entry k (\<lambda>e. e\<lparr>sales := sales e @ [ev]\<rparr>) ?xs)"
    by (simp add: recordSale_def)
  from in_map_entry [OF this] show "0 < amount s"
  proof
    assume "(k', e') \<in> set ?xs"
    with xs s show ?thesis by blast
  next
    assume "\<exists>e. (k, e) \<in> set ?xs \<and> k' = k \<and> e' = e\<lparr>sales := sales e @ [ev]\<rparr>"
    then obtain e where "(k, e) \<in> set ?xs" "e' = e\<lparr>sales := sales e @ [ev]\<rparr>" by blast
    with xs s assms(2) show ?thesis by auto
  qed
qed

lemma salesPositive_updateName:
  assumes "salesPositive st"
  shows "salesPositive (updateName k nm st)"
  unfolding salesPositive_iff
proof (clarify)
  fix k' e' s
  assume a: "(k', e') \<in> set (employees (updateName k nm st))" and s: "s \<in> set (sales e')"
  from assms have xs: "\<forall>(k, e) \<in> set (employees st). \<forall>s \<in> set (sales e). 0 < amount s"
    by (simp add: salesPositive_iff)
  show "0 < amount s"
  proof (cases "map_of (employees st) k = None")
    case True
    with a have "(k', e') \<in> set (employees st) \<or> e' = \<lparr>name = nm, sales = []\<rparr>"
      by (auto simp: updateName_def)
    with xs s show ?thesis by auto
  next
    case False
    with a have "(k', e') \<in> set (AList.map_entry k (\<lambda>e. e\<lparr>name := nm\<rparr>) (employees st))"
      by (simp add: updateName_def)
    from in_map_entry [OF this] xs s show ?thesis by auto
  qed
qed

lemma salesPositive_processLog:
  assumes "salesPositive st"
  shows "salesPositive (fst (processLog m st))"
proof (cases "saleBlock m st")
  case None
  have "salesPositive (nameBlock m st)"
    using nameBlock_cases [of m st] assms salesPositive_updateName by auto
  with None show ?thesis by (simp add: processLog_def)
next
  case (Some st')
  from saleBlock_Some [OF Some] assms salesPositive_recordSale have "salesPositive st'" by auto
  with Some show ?thesis by (simp add: processLog_def)
qed

lemma salesPositive_applyOp: "salesPositive st \<Longrightarrow> salesPositive (applyOp st x)"
proof (cases x)
  case (Log msg)
  assume "salesPositive st"
  then show ?thesis using Log by (simp add: salesPositive_processLog)
next
  case (Reset now)
  then show ?thesis by (simp add: resetWeek_def salesPositive_def)
qed

lemma salesPositive_run: "salesPositive st \<Longrightarrow> salesPositive (run ops st)"
  unfolding run_def by (induction ops arbitrary: st) (simp_all add: salesPositive_applyOp)

lemma processLog_accepted:
  assumes "isSaleLine (content m)" "extractDNI (content m) = Some k"
    "extractAmount (content m) = Some a" "0 < a"
  shows "processLog m st =
           (recordSale k \<lparr>amount = a, date = createdAt m, messageId = msgId m\<rparr> st, True)"
  by (simp add: processLog_def saleBlock_accepted [OF assms])

lemma processLog_rejected:
  assumes "\<not> (isSaleLine (content m) \<and> extractDNI (content m) \<noteq> None \<and>
              (\<exists>a. extractAmount (content m) = Some a \<and> 0 < a))"
  shows "processLog m st = (nameBlock m st, False)"
  by (simp add: processLog_def saleBlock_rejected [OF assms])

lemma map_fst_map_entry: "map fst (AList.map_entry k f xs) = map fst xs"
  by (induction xs) auto

section \<open>Properties of the table\<close>

text \<open>
  C10: every sale amount stored in the table is strictly positive.  From the empty
  table, every run of the operations that change it (a log message that records a sale
  or updates a name, the reset of the week) ends in a table in which no employee has
  a sale with an amount of 0 or less: a sale is pushed only when the extracted amount
  is greater than 0.
\<close>

theorem sale_amounts_positive:
  "salesPositive (run ops (emptyState now)) \<and>
   (\<forall>(k, e) \<in> set (employees (run ops (emptyState now))). \<forall>s \<in> set (sales e). 0 < amount s)"
proof -
  have "salesPositive (emptyState now)" by (simp add: salesPositive_def emptyState_def)
  then have "salesPositive (run ops (emptyState now))" by (rule salesPositive_run)
  then show ?thesis using salesPositive_iff by blast
qed

text \<open>A run with a sale of 150, a name update and a rejected sale of 0: the table holds
  the one sale, and it is positive.\<close>

theorem sale_amounts_positive_witness:
  "employees (run
     [Log \<lparr>content = ''Cliente ha pagado una factura de [abc 12345] por $150'', createdAt = 10, msgId = ''m1''\<rparr>,
      Log \<lparr>content = ''[ABC12345] Juan Perez ha retirado $20'', createdAt = 11, msgId = ''m2''\<rparr>,
      Log \<lparr>content = ''Cliente ha pagado una factura de [ABC12345] por $0'', createdAt = 12, msgId = ''m3''\<rparr>]
     (emptyState 0)) =
     [(''ABC12345'', \<lparr>name = ''Juan Perez'', sales = [\<lparr>amount = 150, date = 10, messageId = ''m1''\<rparr>]\<rparr>)] \<and>
   salesPositive (run
     [Log \<lparr>content = ''Cliente ha pagado una factura de [abc 12345] por $150'', createdAt = 10, msgId = ''m1''\<rparr>,
      Log \<lparr>content = ''[ABC12345] Juan Perez ha retirado $20'', createdAt = 11, msgId = ''m2''\<rparr>,
      Log \<lparr>content = ''Cliente ha pagado una factura de [ABC12345] por $0'', createdAt = 12, msgId = ''m3''\<rparr>]
     (emptyState 0))"
proof -
  let ?ops = "[Log \<lparr>content = ''Cliente ha pagado una factura de [abc 12345] por $150'', createdAt = 10, msgId = ''m1''\<rparr>,
      Log \<lparr>content = ''[ABC12345] Juan Perez ha retirado $20'', createdAt = 11, msgId = ''m2''\<rparr>,
      Log \<lparr>content = ''Cliente ha pagado una factura de [ABC12345] por $0'', createdAt = 12, msgId = ''m3''\<rparr>]"
  have "run ?ops (emptyState 0) =
    \<lparr>employees = [(''ABC12345'', \<lparr>name = ''Juan Perez'',
        sales = [\<lparr>amount = 150, date = 10, messageId = ''m1''\<rparr>]\<rparr>)], weekStartDate = 0\<rparr>"
    by code_simp
  then have "employees (run ?ops (emptyState 0)) =
     [(''ABC12345'', \<lparr>name = ''Juan Perez'', sales = [\<lparr>amount = 150, date = 10, messageId = ''m1''\<rparr>]\<rparr>)]"
    by simp
  with sale_amounts_positive [of ?ops 0] show ?thesis by blast
qed

section \<open>Properties of \<^verbatim>\<open>processLog\<close>\<close>

text \<open>
  C5: recording a sale is not idempotent.  Processing twice the same sale message (the
  same identifier of the message, the same employee and amount) returns true both
  times and pushes two sales onto the employee; nothing compares the identifier of the
  message with the ones recorded.  The total of an employee without earlier sales is
  then twice the amount, whatever the amount; the total of an employee with earlier
  sales is the old total with the amount added twice, each addition rounded to a
  double, which is the old total plus twice the amount as long as this does not exceed
  \<open>2^53\<close>.
\<close>

theorem replay_double_counts:
  assumes "isSaleLine (content m)" and "extractDNI (content m) = Some k"
    and "extractAmount (content m) = Some a" and "0 < a"
  shows "snd (processLog m st) \<and> snd (processLog m (fst (processLog m st))) \<and>
         salesOf (fst (processLog m (fst (processLog m st)))) k =
           salesOf st k @ [\<lparr>amount = a, date = createdAt m, messageId = msgId m\<rparr>,
                           \<lparr>amount = a, date = createdAt m, messageId = msgId m\<rparr>] \<and>
         totalOf (salesOf (fst (processLog m (fst (processLog m st)))) k) =
           doubleOf (doubleOf (totalOf (salesOf st k) + a) + a) \<and>
         (salesOf st k = [] \<longrightarrow>
            totalOf (salesOf (fst (processLog m (fst (processLog m st)))) k) = 2 * a) \<and>
         (0 \<le> totalOf (salesOf st k) \<and> totalOf (salesOf st k) + 2 * a \<le> 2 ^ 53 \<longrightarrow>
            totalOf (salesOf (fst (processLog m (fst (processLog m st)))) k) =
              totalOf (salesOf st k) + 2 * a)"
proof -
  let ?ev = "\<lparr>amount = a, date = createdAt m, messageId = msgId m\<rparr>"
  let ?T = "totalOf (salesOf st k)"
  have p: "\<And>s. processLog m s = (recordSale k ?ev s, True)"
    by (rule processLog_accepted [OF assms])
  have s: "salesOf (recordSale k ?ev (recordSale k ?ev st)) k = salesOf st k @ [?ev, ?ev]"
    by (simp add: salesOf_recordSale)
  have t: "totalOf (salesOf st k @ [?ev, ?ev]) = doubleOf (doubleOf (?T + a) + a)"
    by (simp add: totalOf_append)
  have da: "doubleOf a = a" using assms(3) by (rule extractAmount_double)
  have fresh: "salesOf st k = [] \<longrightarrow> totalOf (salesOf st k @ [?ev, ?ev]) = 2 * a"
  proof
    assume e: "salesOf st k = []"
    then have T0: "?T = 0" by (simp add: totalOf_def)
    have "totalOf (salesOf st k @ [?ev, ?ev]) = doubleOf (doubleOf (?T + a) + a)" by (rule t)
    also have "\<dots> = doubleOf (2 * a)" by (simp add: T0 da)
    also have "\<dots> = 2 * a" using da by (rule doubleOf_twice)
    finally show "totalOf (salesOf st k @ [?ev, ?ev]) = 2 * a" .
  qed
  have small: "0 \<le> ?T \<and> ?T + 2 * a \<le> 2 ^ 53 \<longrightarrow>
      totalOf (salesOf st k @ [?ev, ?ev]) = ?T + 2 * a"
  proof
    assume h: "0 \<le> ?T \<and> ?T + 2 * a \<le> 2 ^ 53"
    with assms(4) have "\<bar>?T + a\<bar> \<le> 2 ^ 53" by simp
    then have d1: "doubleOf (?T + a) = ?T + a" by (rule doubleOf_le)
    from h assms(4) have "\<bar>?T + 2 * a\<bar> \<le> 2 ^ 53" by simp
    then have d2: "doubleOf (?T + 2 * a) = ?T + 2 * a" by (rule doubleOf_le)
    have "totalOf (salesOf st k @ [?ev, ?ev]) = doubleOf (doubleOf (?T + a) + a)" by (rule t)
    also have "\<dots> = doubleOf (?T + a + a)" by (simp only: d1)
    also have "\<dots> = doubleOf (?T + 2 * a)" by (simp add: algebra_simps)
    also have "\<dots> = ?T + 2 * a" by (rule d2)
    finally show "totalOf (salesOf st k @ [?ev, ?ev]) = ?T + 2 * a" .
  qed
  have r: "fst (processLog m (fst (processLog m st))) = recordSale k ?ev (recordSale k ?ev st)"
    by (simp add: p)
  have "snd (processLog m st)" "snd (processLog m (fst (processLog m st)))" by (simp_all add: p)
  with s t fresh small show ?thesis unfolding r by simp
qed

text \<open>The same message of 150 twice from the empty table: two sales, total 300.\<close>

theorem replay_double_counts_witness:
  "snd (processLog \<lparr>content = ''Ana ha pagado una factura de [ABC12345] por $150'', createdAt = 7, msgId = ''m1''\<rparr>
         (emptyState 0)) \<and>
   salesOf (fst (processLog \<lparr>content = ''Ana ha pagado una factura de [ABC12345] por $150'', createdAt = 7, msgId = ''m1''\<rparr>
      (fst (processLog \<lparr>content = ''Ana ha pagado una factura de [ABC12345] por $150'', createdAt = 7, msgId = ''m1''\<rparr>
         (emptyState 0))))) ''ABC12345'' =
     [\<lparr>amount = 150, date = 7, messageId = ''m1''\<rparr>, \<lparr>amount = 150, date = 7, messageId = ''m1''\<rparr>] \<and>
   totalOf (salesOf (fst (processLog \<lparr>content = ''Ana ha pagado una factura de [ABC12345] por $150'', createdAt = 7, msgId = ''m1''\<rparr>
      (fst (processLog \<lparr>content = ''Ana ha pagado una factura de [ABC12345] por $150'', createdAt = 7, msgId = ''m1''\<rparr>
         (emptyState 0))))) ''ABC12345'') = 300"
proof -
  let ?m = "\<lparr>content = ''Ana ha pagado una factura de [ABC12345] por $150'', createdAt = 7, msgId = ''m1''\<rparr>"
  have h1: "isSaleLine (content ?m)" by code_simp
  have h2: "extractDNI (content ?m) = Some ''ABC12345''" by code_simp
  have h3: "extractAmount (content ?m) = Some 150" by code_simp
  have h4: "(0::int) < 150" by simp
  have e: "salesOf (emptyState 0) ''ABC12345'' = []" by (simp add: salesOf_def emptyState_def)
  let ?s2 = "fst (processLog ?m (fst (processLog ?m (emptyState 0))))"
  let ?ev = "\<lparr>amount = 150, date = createdAt ?m, messageId = msgId ?m\<rparr>"
  note t = replay_double_counts [OF h1 h2 h3 h4, of "emptyState 0"]
  from t [unfolded e] have a: "snd (processLog ?m (emptyState 0))" by blast
  from t [unfolded e] have "salesOf ?s2 ''ABC12345'' = [] @ [?ev, ?ev]" by blast
  then have b: "salesOf ?s2 ''ABC12345'' =
      [\<lparr>amount = 150, date = 7, messageId = ''m1''\<rparr>, \<lparr>amount = 150, date = 7, messageId = ''m1''\<rparr>]"
    by simp
  from t [unfolded e] have "totalOf (salesOf ?s2 ''ABC12345'') = 2 * 150" by blast
  then have c: "totalOf (salesOf ?s2 ''ABC12345'') = 300" by simp
  from a b c show ?thesis by (intro conjI)
qed

text \<open>
  C7: a line that reaches the name update (it holds one of \<^verbatim>\<open>ha retirado\<close>,
  \<^verbatim>\<open>ha guardado\<close>, \<^verbatim>\<open>ha enviado\<close> and is not recorded as a sale) and from which an
  identifier and a non-empty name are extracted upserts the display name: a new
  identifier gets a record at the end of the table with that name and no sale; an
  existing one keeps its position and its sales and has the name overwritten; the
  records of all the other identifiers, all the sale lists and the start of the week
  are unchanged; the function returns false.
\<close>

theorem name_update_upserts:
  assumes "isNameLine (content m)" and "extractDNI (content m) = Some k"
    and "extractName (content m) = Some nm" and "nm \<noteq> []"
    and "\<not> (isSaleLine (content m) \<and> (\<exists>a. extractAmount (content m) = Some a \<and> 0 < a))"
  shows "snd (processLog m st) = False \<and>
         weekStartDate (fst (processLog m st)) = weekStartDate st \<and>
         (map_of (employees st) k = None \<longrightarrow>
            employees (fst (processLog m st)) = employees st @ [(k, \<lparr>name = nm, sales = []\<rparr>)]) \<and>
         (\<forall>e. map_of (employees st) k = Some e \<longrightarrow>
            map_of (employees (fst (processLog m st))) k = Some (e\<lparr>name := nm\<rparr>) \<and>
            map fst (employees (fst (processLog m st))) = map fst (employees st)) \<and>
         (\<forall>k'. k' \<noteq> k \<longrightarrow>
            map_of (employees (fst (processLog m st))) k' = map_of (employees st) k') \<and>
         (\<forall>k'. salesOf (fst (processLog m st)) k' = salesOf st k')"
proof -
  from assms(5) have "\<not> (isSaleLine (content m) \<and> extractDNI (content m) \<noteq> None \<and>
              (\<exists>a. extractAmount (content m) = Some a \<and> 0 < a))" by blast
  then have p: "processLog m st = (updateName k nm st, False)"
    by (simp add: processLog_rejected nameBlock_updates [OF assms(1-4)])
  have "map_of (employees st) k \<noteq> None \<Longrightarrow>
      map fst (employees (updateName k nm st)) = map fst (employees st)"
    by (simp add: updateName_def map_fst_map_entry)
  moreover have "map_of (employees st) k = None \<Longrightarrow>
      employees (updateName k nm st) = employees st @ [(k, \<lparr>name = nm, sales = []\<rparr>)]"
    by (simp add: updateName_def)
  moreover have "weekStartDate (updateName k nm st) = weekStartDate st"
    by (simp add: updateName_def)
  ultimately show ?thesis
    by (simp add: p map_of_updateName salesOf_updateName)
qed

text \<open>The line \<^verbatim>\<open>[ABC12345] Juan Perez ha retirado $20\<close> on the empty table and on a table
  in which the employee has a sale.\<close>

theorem name_update_upserts_witness:
  "employees (fst (processLog \<lparr>content = ''[ABC12345] Juan Perez ha retirado $20'', createdAt = 3, msgId = ''m2''\<rparr>
      (emptyState 0))) = [(''ABC12345'', \<lparr>name = ''Juan Perez'', sales = []\<rparr>)] \<and>
   map_of (employees (fst (processLog \<lparr>content = ''[ABC12345] Juan Perez ha retirado $20'', createdAt = 3, msgId = ''m2''\<rparr>
      \<lparr>employees = [(''ABC12345'', \<lparr>name = ''ABC12345'', sales = [\<lparr>amount = 150, date = 1, messageId = ''m1''\<rparr>]\<rparr>)],
       weekStartDate = 0\<rparr>))) ''ABC12345'' =
     Some \<lparr>name = ''Juan Perez'', sales = [\<lparr>amount = 150, date = 1, messageId = ''m1''\<rparr>]\<rparr>"
proof -
  let ?m = "\<lparr>content = ''[ABC12345] Juan Perez ha retirado $20'', createdAt = 3, msgId = ''m2''\<rparr>"
  let ?e = "\<lparr>name = ''ABC12345'', sales = [\<lparr>amount = 150, date = 1, messageId = ''m1''\<rparr>]\<rparr>"
  let ?st = "\<lparr>employees = [(''ABC12345'', ?e)], weekStartDate = 0\<rparr>"
  have h1: "isNameLine (content ?m)" by code_simp
  have h2: "extractDNI (content ?m) = Some ''ABC12345''" by code_simp
  have h3: "extractName (content ?m) = Some ''Juan Perez''" by code_simp
  have h4: "''Juan Perez'' \<noteq> []" by simp
  have "\<not> isSaleLine (content ?m)" by code_simp
  then have h5: "\<not> (isSaleLine (content ?m) \<and> (\<exists>a. extractAmount (content ?m) = Some a \<and> 0 < a))"
    by blast
  have a: "map_of (employees (emptyState 0)) ''ABC12345'' = None" by (simp add: emptyState_def)
  have b: "map_of (employees ?st) ''ABC12345'' = Some ?e" by simp
  from name_update_upserts [OF h1 h2 h3 h4 h5, of "emptyState 0"] a
  have 1: "employees (fst (processLog ?m (emptyState 0))) =
      employees (emptyState 0) @ [(''ABC12345'', \<lparr>name = ''Juan Perez'', sales = []\<rparr>)]"
    by blast
  from name_update_upserts [OF h1 h2 h3 h4 h5, of ?st] b
  have 2: "map_of (employees (fst (processLog ?m ?st))) ''ABC12345'' = Some (?e\<lparr>name := ''Juan Perez''\<rparr>)"
    by blast
  from 1 2 show ?thesis by (simp add: emptyState_def)
qed

text \<open>
  C1, as stated: a message with \<^verbatim>\<open>ha pagado una factura\<close> and \<^verbatim>\<open>de [\<close> never reaches
  the name update, even when the sale is rejected.  The two blocks of \<^verbatim>\<open>processLog\<close>
  are two \<^verbatim>\<open>if\<close> statements in sequence, and only a recorded sale returns from the
  first: the line below has both phrases and no amount, and processing it on the empty
  table creates the display name \<^verbatim>\<open>Juan Perez\<close>.
\<close>

theorem rejected_sale_line_creates_name_counterexample:
  "isSaleLine ''[ABC12345] Juan Perez ha retirado el vuelto y ha pagado una factura de [caja]'' \<and>
   extractAmount ''[ABC12345] Juan Perez ha retirado el vuelto y ha pagado una factura de [caja]'' = Some 0 \<and>
   employees (emptyState 0) = [] \<and>
   employees (fst (processLog
      \<lparr>content = ''[ABC12345] Juan Perez ha retirado el vuelto y ha pagado una factura de [caja]'',
       createdAt = 5, msgId = ''m9''\<rparr> (emptyState 0))) =
     [(''ABC12345'', \<lparr>name = ''Juan Perez'', sales = []\<rparr>)]"
  by code_simp

text \<open>
  C1, amended: a message with \<^verbatim>\<open>ha pagado una factura\<close> and \<^verbatim>\<open>de [\<close> that is accepted
  as a sale (identifier not null, amount above 0) never reaches the name update, also
  when it holds \<^verbatim>\<open>ha retirado\<close>, \<^verbatim>\<open>ha guardado\<close> or \<^verbatim>\<open>ha enviado\<close>: the result is the
  recorded sale, every display name of the table is unchanged and the only name
  created is the identifier itself, for an employee that was not in the table.  When
  the sale is rejected, processing goes on with the name update as for any other
  message.
\<close>

theorem accepted_sale_skips_name_update:
  "(isSaleLine (content m) \<and> extractDNI (content m) = Some k \<and>
    extractAmount (content m) = Some a \<and> 0 < a \<longrightarrow>
      processLog m st =
        (recordSale k \<lparr>amount = a, date = createdAt m, messageId = msgId m\<rparr> st, True) \<and>
      (\<forall>k' e. map_of (employees st) k' = Some e \<longrightarrow>
         (\<exists>e'. map_of (employees (fst (processLog m st))) k' = Some e' \<and> name e' = name e)) \<and>
      (\<forall>k'. map_of (employees st) k' = None \<longrightarrow>
         map_of (employees (fst (processLog m st))) k' =
           (if k' = k
            then Some \<lparr>name = k, sales = [\<lparr>amount = a, date = createdAt m, messageId = msgId m\<rparr>]\<rparr>
            else None))) \<and>
   (isSaleLine (content m) \<and>
    \<not> (extractDNI (content m) \<noteq> None \<and> (\<exists>a. extractAmount (content m) = Some a \<and> 0 < a)) \<longrightarrow>
      processLog m st = (nameBlock m st, False))"
proof (intro conjI impI)
  assume h: "isSaleLine (content m) \<and> extractDNI (content m) = Some k \<and>
    extractAmount (content m) = Some a \<and> 0 < a"
  let ?ev = "\<lparr>amount = a, date = createdAt m, messageId = msgId m\<rparr>"
  from h show p: "processLog m st = (recordSale k ?ev st, True)"
    by (simp add: processLog_accepted)
  show "\<forall>k' e. map_of (employees st) k' = Some e \<longrightarrow>
         (\<exists>e'. map_of (employees (fst (processLog m st))) k' = Some e' \<and> name e' = name e)"
    by (simp add: p map_of_recordSale)
  show "\<forall>k'. map_of (employees st) k' = None \<longrightarrow>
         map_of (employees (fst (processLog m st))) k' =
           (if k' = k then Some \<lparr>name = k, sales = [?ev]\<rparr> else None)"
    by (simp add: p map_of_recordSale)
next
  assume "isSaleLine (content m) \<and>
    \<not> (extractDNI (content m) \<noteq> None \<and> (\<exists>a. extractAmount (content m) = Some a \<and> 0 < a))"
  then show "processLog m st = (nameBlock m st, False)"
    by (intro processLog_rejected) blast
qed

text \<open>An accepted sale line that also holds \<^verbatim>\<open>ha retirado\<close> leaves the name \<^verbatim>\<open>Ana\<close>;
  a rejected one goes through the name update.\<close>

theorem accepted_sale_skips_name_update_witness:
  "processLog
     \<lparr>content = ''[ABC12345] Juan ha retirado y ha pagado una factura de [ABC12345] por $150'',
      createdAt = 4, msgId = ''m4''\<rparr>
     \<lparr>employees = [(''ABC12345'', \<lparr>name = ''Ana'', sales = []\<rparr>)], weekStartDate = 0\<rparr> =
     (\<lparr>employees = [(''ABC12345'', \<lparr>name = ''Ana'',
          sales = [\<lparr>amount = 150, date = 4, messageId = ''m4''\<rparr>]\<rparr>)], weekStartDate = 0\<rparr>, True) \<and>
   processLog
     \<lparr>content = ''[ABC12345] Juan Perez ha retirado el vuelto y ha pagado una factura de [caja]'',
      createdAt = 5, msgId = ''m9''\<rparr> (emptyState 0) =
     (\<lparr>employees = [(''ABC12345'', \<lparr>name = ''Juan Perez'', sales = []\<rparr>)], weekStartDate = 0\<rparr>, False)"
proof -
  let ?m = "\<lparr>content = ''[ABC12345] Juan ha retirado y ha pagado una factura de [ABC12345] por $150'',
      createdAt = 4, msgId = ''m4''\<rparr>"
  let ?st = "\<lparr>employees = [(''ABC12345'', \<lparr>name = ''Ana'', sales = []\<rparr>)], weekStartDate = 0\<rparr>"
  let ?n = "\<lparr>content = ''[ABC12345] Juan Perez ha retirado el vuelto y ha pagado una factura de [caja]'',
      createdAt = 5, msgId = ''m9''\<rparr>"
  have h1: "isSaleLine (content ?m) \<and> extractDNI (content ?m) = Some ''ABC12345'' \<and>
      extractAmount (content ?m) = Some 150 \<and> (0::int) < 150"
    by code_simp
  have r: "recordSale ''ABC12345'' \<lparr>amount = 150, date = createdAt ?m, messageId = msgId ?m\<rparr> ?st =
      \<lparr>employees = [(''ABC12345'', \<lparr>name = ''Ana'',
          sales = [\<lparr>amount = 150, date = 4, messageId = ''m4''\<rparr>]\<rparr>)], weekStartDate = 0\<rparr>"
    by code_simp
  have h2: "isSaleLine (content ?n)" by code_simp
  have "extractAmount (content ?n) = Some 0" by code_simp
  then have h3: "\<not> (extractDNI (content ?n) \<noteq> None \<and> (\<exists>a. extractAmount (content ?n) = Some a \<and> 0 < a))"
    by simp
  have n: "nameBlock ?n (emptyState 0) =
      \<lparr>employees = [(''ABC12345'', \<lparr>name = ''Juan Perez'', sales = []\<rparr>)], weekStartDate = 0\<rparr>"
    by code_simp
  from accepted_sale_skips_name_update [of ?m "''ABC12345''" 150 ?st] h1
  have 1: "processLog ?m ?st =
      (recordSale ''ABC12345'' \<lparr>amount = 150, date = createdAt ?m, messageId = msgId ?m\<rparr> ?st, True)"
    by blast
  from accepted_sale_skips_name_update [of ?n _ _ "emptyState 0"] h2 h3
  have 2: "processLog ?n (emptyState 0) = (nameBlock ?n (emptyState 0), False)"
    by blast
  from 1 2 show ?thesis by (simp only: r n)
qed

text \<open>
  C6, as stated: a sale line with an identifier and an amount of 0 leaves the table
  completely unchanged.  The rejected line still goes through the second block of
  \<^verbatim>\<open>processLog\<close>: the line below has an identifier, the amount \<^verbatim>\<open>$0\<close> and the phrase
  \<^verbatim>\<open>ha guardado\<close>, and processing it renames the employee.
\<close>

theorem zero_amount_line_renames_counterexample:
  "isSaleLine ''[ABC12345] Juan Perez ha guardado $0 y ha pagado una factura de [caja]'' \<and>
   extractDNI ''[ABC12345] Juan Perez ha guardado $0 y ha pagado una factura de [caja]'' = Some ''ABC12345'' \<and>
   extractAmount ''[ABC12345] Juan Perez ha guardado $0 y ha pagado una factura de [caja]'' = Some 0 \<and>
   processLog
     \<lparr>content = ''[ABC12345] Juan Perez ha guardado $0 y ha pagado una factura de [caja]'',
      createdAt = 6, msgId = ''m6''\<rparr>
     \<lparr>employees = [(''ABC12345'', \<lparr>name = ''ABC12345'',
        sales = [\<lparr>amount = 150, date = 1, messageId = ''m1''\<rparr>]\<rparr>)], weekStartDate = 0\<rparr> =
     (\<lparr>employees = [(''ABC12345'', \<lparr>name = ''Juan Perez'',
        sales = [\<lparr>amount = 150, date = 1, messageId = ''m1''\<rparr>]\<rparr>)], weekStartDate = 0\<rparr>, False)"
  by code_simp

text \<open>
  C6, amended: a sale line with an identifier and an amount of 0 (no amount, or zero)
  records no sale (the sales of every identifier are the ones before) and returns
  false.  The table is unchanged when the line has none of \<^verbatim>\<open>ha retirado\<close>,
  \<^verbatim>\<open>ha guardado\<close>, \<^verbatim>\<open>ha enviado\<close> or no name is extracted from it; otherwise the display
  name of the extracted identifier is upserted and nothing else changes.
\<close>

theorem zero_amount_line_records_no_sale:
  assumes "isSaleLine (content m)" and "extractDNI (content m) = Some k"
    and "extractAmount (content m) = Some 0"
  shows "snd (processLog m st) = False \<and>
         (\<forall>k'. salesOf (fst (processLog m st)) k' = salesOf st k') \<and>
         weekStartDate (fst (processLog m st)) = weekStartDate st \<and>
         (\<forall>k'. k' \<noteq> k \<longrightarrow>
            map_of (employees (fst (processLog m st))) k' = map_of (employees st) k') \<and>
         (\<not> isNameLine (content m) \<or> extractName (content m) = None \<or>
          extractName (content m) = Some [] \<longrightarrow> fst (processLog m st) = st) \<and>
         (\<forall>nm. isNameLine (content m) \<and> extractName (content m) = Some nm \<and> nm \<noteq> [] \<longrightarrow>
            fst (processLog m st) = updateName k nm st)"
proof -
  from assms(3) have "\<not> (isSaleLine (content m) \<and> extractDNI (content m) \<noteq> None \<and>
              (\<exists>a. extractAmount (content m) = Some a \<and> 0 < a))" by simp
  then have p: "processLog m st = (nameBlock m st, False)" by (rule processLog_rejected)
  have c: "nameBlock m st = st \<or> (\<exists>nm. nameBlock m st = updateName k nm st)"
    using nameBlock_cases [of m st] assms(2) by auto
  have 1: "\<forall>k'. salesOf (nameBlock m st) k' = salesOf st k'"
    using c salesOf_updateName by auto
  have 2: "weekStartDate (nameBlock m st) = weekStartDate st"
    using c by (auto simp: updateName_def)
  have 3: "\<forall>k'. k' \<noteq> k \<longrightarrow> map_of (employees (nameBlock m st)) k' = map_of (employees st) k'"
    using c map_of_updateName by auto
  have 4: "\<not> isNameLine (content m) \<or> extractName (content m) = None \<or>
          extractName (content m) = Some [] \<longrightarrow> nameBlock m st = st"
    by (auto simp: nameBlock_def split: option.splits)
  have 5: "\<forall>nm. isNameLine (content m) \<and> extractName (content m) = Some nm \<and> nm \<noteq> [] \<longrightarrow>
            nameBlock m st = updateName k nm st"
    using assms(2) nameBlock_updates by blast
  from 1 2 3 4 5 show ?thesis by (simp add: p)
qed

text \<open>A line with \<^verbatim>\<open>$0\<close> and no name phrase leaves a table with one employee as it is.\<close>

theorem zero_amount_line_records_no_sale_witness:
  "processLog
     \<lparr>content = ''Ana ha pagado una factura de [ABC12345] por $0'', createdAt = 6, msgId = ''m6''\<rparr>
     \<lparr>employees = [(''ABC12345'', \<lparr>name = ''ABC12345'',
        sales = [\<lparr>amount = 150, date = 1, messageId = ''m1''\<rparr>]\<rparr>)], weekStartDate = 0\<rparr> =
     (\<lparr>employees = [(''ABC12345'', \<lparr>name = ''ABC12345'',
        sales = [\<lparr>amount = 150, date = 1, messageId = ''m1''\<rparr>]\<rparr>)], weekStartDate = 0\<rparr>, False)"
proof -
  let ?m = "\<lparr>content = ''Ana ha pagado una factura de [ABC12345] por $0'', createdAt = 6, msgId = ''m6''\<rparr>"
  let ?st = "\<lparr>employees = [(''ABC12345'', \<lparr>name = ''ABC12345'',
        sales = [\<lparr>amount = 150, date = 1, messageId = ''m1''\<rparr>]\<rparr>)], weekStartDate = 0\<rparr>"
  have h1: "isSaleLine (content ?m)" by code_simp
  have h2: "extractDNI (content ?m) = Some ''ABC12345''" by code_simp
  have h3: "extractAmount (content ?m) = Some 0" by code_simp
  have h4: "\<not> isNameLine (content ?m)" by code_simp
  from zero_amount_line_records_no_sale [OF h1 h2 h3, of ?st] h4
  have "snd (processLog ?m ?st) = False \<and> fst (processLog ?m ?st) = ?st" by blast
  then show ?thesis by (simp add: prod_eq_iff)
qed

text \<open>
  C9: a name returned by the name extraction holds neither \<^verbatim>\<open>h\<close> nor \<^verbatim>\<open>H\<close> (the name
  is captured by \<^verbatim>\<open>[^h]+?\<close> under the flag \<^verbatim>\<open>i\<close>).  So a display name that a call of
  \<^verbatim>\<open>processLog\<close> returning false creates or changes holds no such letter: a line whose
  employee name has an \<^verbatim>\<open>h\<close> never stores the full name.
\<close>

theorem extracted_name_has_no_h:
  "(extractName text = Some n \<longrightarrow> CHR ''h'' \<notin> set n \<and> CHR ''H'' \<notin> set n) \<and>
   (processLog m st = (st', False) \<and> map_of (employees st') k = Some e' \<and>
    map_of (employees st) k \<noteq> Some e' \<longrightarrow>
      CHR ''h'' \<notin> set (name e') \<and> CHR ''H'' \<notin> set (name e'))"
proof -
  have 1: "extractName text = Some n \<longrightarrow> CHR ''h'' \<notin> set n \<and> CHR ''H'' \<notin> set n"
    using extractName_no_h by blast
  have 2: "CHR ''h'' \<notin> set (name e') \<and> CHR ''H'' \<notin> set (name e')"
    if a: "processLog m st = (st', False) \<and> map_of (employees st') k = Some e' \<and>
      map_of (employees st) k \<noteq> Some e'"
  proof -
    from a have st': "st' = nameBlock m st"
      by (auto simp: processLog_def split: option.splits)
    from a st' have "nameBlock m st \<noteq> st" by auto
    with nameBlock_cases [of m st] obtain k0 nm where
      nm: "extractName (content m) = Some nm" and u: "nameBlock m st = updateName k0 nm st"
      by blast
    from a st' u have "name e' = nm"
      by (auto simp: map_of_updateName split: if_splits option.splits)
    with extractName_no_h [OF nm] show ?thesis by simp
  qed
  from 1 2 show ?thesis by blast
qed

text \<open>\<^verbatim>\<open>Juan Perez\<close> is extracted and stored; from lines with \<^verbatim>\<open>Jhon Perez\<close> or
  \<^verbatim>\<open>Hugo Sanchez\<close> no name is extracted.\<close>

theorem extracted_name_has_no_h_witness:
  "extractName ''[ABC12345] Juan Perez ha retirado $20'' = Some ''Juan Perez'' \<and>
   CHR ''h'' \<notin> set ''Juan Perez'' \<and> CHR ''H'' \<notin> set ''Juan Perez'' \<and>
   extractName ''[ABC12345] Jhon Perez ha retirado $20'' = None \<and>
   extractName ''[ABC12345] Hugo Sanchez ha retirado $20'' = None \<and>
   processLog \<lparr>content = ''[ABC12345] Juan Perez ha retirado $20'', createdAt = 3, msgId = ''m2''\<rparr>
     (emptyState 0) =
     (\<lparr>employees = [(''ABC12345'', \<lparr>name = ''Juan Perez'', sales = []\<rparr>)], weekStartDate = 0\<rparr>, False)"
proof -
  let ?m = "\<lparr>content = ''[ABC12345] Juan Perez ha retirado $20'', createdAt = 3, msgId = ''m2''\<rparr>"
  let ?st' = "\<lparr>employees = [(''ABC12345'', \<lparr>name = ''Juan Perez'', sales = []\<rparr>)], weekStartDate = 0\<rparr>"
  have h1: "extractName ''[ABC12345] Juan Perez ha retirado $20'' = Some ''Juan Perez''" by code_simp
  have h2: "extractName ''[ABC12345] Jhon Perez ha retirado $20'' = None" by code_simp
  have h3: "extractName ''[ABC12345] Hugo Sanchez ha retirado $20'' = None" by code_simp
  have h4: "processLog ?m (emptyState 0) = (?st', False)" by code_simp
  have h5: "map_of (employees ?st') ''ABC12345'' = Some \<lparr>name = ''Juan Perez'', sales = []\<rparr>" by simp
  have h6: "map_of (employees (emptyState 0)) ''ABC12345'' \<noteq> Some \<lparr>name = ''Juan Perez'', sales = []\<rparr>"
    by (simp add: emptyState_def)
  from extracted_name_has_no_h [of "''[ABC12345] Juan Perez ha retirado $20''" "''Juan Perez''"
      ?m "emptyState 0" ?st' "''ABC12345''" "\<lparr>name = ''Juan Perez'', sales = []\<rparr>"] h1 h4 h5 h6
  have "CHR ''h'' \<notin> set ''Juan Perez'' \<and> CHR ''H'' \<notin> set ''Juan Perez''" by blast
  with h1 h2 h3 h4 show ?thesis by blast
qed

section \<open>Properties of \<^verbatim>\<open>!leer\<close>\<close>

text \<open>The counter \<^verbatim>\<open>totalFetched\<close> is the number of messages collected, the limit
  bounds it, and without a date the messages collected are the first \<open>limit\<close> of the
  history.\<close>

lemma collectPage_count:
  "length (fst (collectPage sd lm msgs (acc, n))) + n = length acc + snd (collectPage sd lm msgs (acc, n))"
proof (induction msgs arbitrary: acc n)
  case Nil
  then show ?case by simp
next
  case (Cons msg msgs)
  from Cons [of acc n] Cons [of "acc @ [msg]" "Suc n"] show ?case by auto
qed

lemma collectPage_limit:
  "0 < l \<Longrightarrow> int n < l \<Longrightarrow> int (snd (collectPage sd (Some l) msgs (acc, n))) \<le> l"
proof (induction msgs arbitrary: acc n)
  case Nil
  then show ?case by simp
next
  case (Cons msg msgs)
  show ?case
  proof (cases "limitReached (Some l) (Suc n)")
    case True
    with Cons.prems Cons.IH [of n acc] show ?thesis by auto
  next
    case False
    with Cons.prems have "int (Suc n) < l" by (simp add: limitReached_def)
    with Cons.prems Cons.IH [of n acc] Cons.IH [of "Suc n" "acc @ [msg]"] False
    show ?thesis by auto
  qed
qed

lemma fetchLoop_count:
  "length (fst (fetchLoop sd lm history (acc, n))) + n =
     length acc + snd (fetchLoop sd lm history (acc, n))"
proof (induction sd lm history "(acc, n)" arbitrary: acc n rule: fetchLoop.induct)
  case (1 sd lm history acc n)
  obtain acc' n' where c: "collectPage sd lm (take 100 history) (acc, n) = (acc', n')"
    by (cases "collectPage sd lm (take 100 history) (acc, n)")
  from collectPage_count [of sd lm "take 100 history" acc n] c
  have k: "length acc' + n = length acc + n'" by simp
  show ?case
  proof (cases "take 100 history = [] \<or> limitReached lm n' \<or> length (take 100 history) < 100")
    case True
    with c k show ?thesis by (subst (1 2) fetchLoop.simps) auto
  next
    case False
    with "1.hyps" [OF _ c [symmetric]]
    have "length (fst (fetchLoop sd lm (drop 100 history) (acc', n'))) + n' =
        length acc' + snd (fetchLoop sd lm (drop 100 history) (acc', n'))" by simp
    with False c k show ?thesis by (subst (1 2) fetchLoop.simps) auto
  qed
qed

lemma fetchLoop_limit:
  "0 < l \<Longrightarrow> int n < l \<Longrightarrow> int (snd (fetchLoop sd (Some l) history (acc, n))) \<le> l"
proof (induction sd "Some l" history "(acc, n)" arbitrary: acc n rule: fetchLoop.induct)
  case (1 sd history acc n)
  obtain acc' n' where c: "collectPage sd (Some l) (take 100 history) (acc, n) = (acc', n')"
    by (cases "collectPage sd (Some l) (take 100 history) (acc, n)")
  from collectPage_limit [OF "1.prems", of sd "take 100 history" acc] c
  have k: "int n' \<le> l" by simp
  show ?case
  proof (cases "take 100 history = [] \<or> limitReached (Some l) n' \<or> length (take 100 history) < 100")
    case True
    with c k "1.prems" show ?thesis by (subst fetchLoop.simps) auto
  next
    case False
    then have "int n' < l" using "1.prems"(1) by (auto simp: limitReached_def)
    with "1.hyps" [OF _ c [symmetric]] False "1.prems"(1)
    have "int (snd (fetchLoop sd (Some l) (drop 100 history) (acc', n'))) \<le> l" by simp
    with False c show ?thesis by (subst fetchLoop.simps) auto
  qed
qed

lemma processAll_count: "snd (processAll msgs st p) \<le> p + length msgs"
proof (induction msgs arbitrary: st p)
  case Nil
  then show ?case by simp
next
  case (Cons msg msgs)
  obtain st' r where q: "processLog msg st = (st', r)" by (cases "processLog msg st")
  from Cons [of st' "if r then Suc p else p"] q show ?case by auto
qed

lemma readHistory_counts:
  assumes "readHistory sd lm history st = (st', t, p)"
  shows "p \<le> t"
proof -
  obtain ms n where f: "fetchLoop sd lm history ([], 0) = (ms, n)"
    by (cases "fetchLoop sd lm history ([], 0)")
  from fetchLoop_count [of sd lm history "[]" 0] f have l: "length ms = n" by simp
  obtain st1 p1 where q: "processAll (rev ms) st 0 = (st1, p1)"
    by (cases "processAll (rev ms) st 0")
  from processAll_count [of "rev ms" st 0] q l have "p1 \<le> n" by simp
  with assms f q show ?thesis by (simp add: readHistory_def)
qed

lemma readHistory_limit:
  assumes "readHistory sd (Some l) history st = (st', t, p)" "0 < l"
  shows "int t \<le> l"
proof -
  obtain ms n where f: "fetchLoop sd (Some l) history ([], 0) = (ms, n)"
    by (cases "fetchLoop sd (Some l) history ([], 0)")
  from fetchLoop_limit [of l 0 sd history "[]"] assms(2) f have "int n \<le> l" by simp
  with assms f show ?thesis by (auto simp: readHistory_def split: prod.splits)
qed

lemma collectPage_exact:
  "0 < l \<Longrightarrow> int n < l \<Longrightarrow>
   collectPage None (Some l) msgs (acc, n) =
     (acc @ take (nat l - n) msgs, n + min (nat l - n) (length msgs))"
proof (induction msgs arbitrary: acc n)
  case Nil
  then show ?case by simp
next
  case (Cons msg msgs)
  show ?case
  proof (cases "limitReached (Some l) (Suc n)")
    case True
    with Cons.prems have "nat l - n = Suc 0" by (auto simp: limitReached_def)
    with True show ?thesis by simp
  next
    case False
    with Cons.prems have b: "int (Suc n) < l" by (simp add: limitReached_def)
    then have "Suc n < nat l" by linarith
    then have d: "nat l - n = Suc (nat l - Suc n)" by arith
    from Cons.IH [OF Cons.prems(1) b, of "acc @ [msg]"] False show ?thesis
      by (simp add: d)
  qed
qed

lemma fetchLoop_exact:
  "0 < l \<Longrightarrow> int n < l \<Longrightarrow>
   fetchLoop None (Some l) history (acc, n) =
     (acc @ take (nat l - n) history, n + min (nat l - n) (length history))"
proof (induction "None :: int option" "Some l" history "(acc, n)" arbitrary: acc n rule: fetchLoop.induct)
  case (1 history acc n)
  let ?page = "take 100 history"
  let ?acc' = "acc @ take (nat l - n) ?page"
  let ?n' = "n + min (nat l - n) (length ?page)"
  have c: "collectPage None (Some l) ?page (acc, n) = (?acc', ?n')"
    by (rule collectPage_exact [OF "1.prems"])
  show ?case
  proof (cases "?page = []")
    case True
    then show ?thesis by (subst fetchLoop.simps) simp
  next
    case ne: False
    show ?thesis
    proof (cases "limitReached (Some l) ?n'")
      case True
      with "1.prems" have "nat l - n \<le> length ?page" by (auto simp: limitReached_def min_def split: if_splits)
      then have k: "nat l - n \<le> 100" "nat l - n \<le> length history" by simp_all
      then have "take (nat l - n) ?page = take (nat l - n) history"
        "min (nat l - n) (length ?page) = min (nat l - n) (length history)"
        by simp_all
      with True ne c show ?thesis by (subst fetchLoop.simps) simp
    next
      case nr: False
      with "1.prems" have lt: "length ?page < nat l - n" by (auto simp: limitReached_def min_def split: if_splits)
      show ?thesis
      proof (cases "length ?page < 100")
        case True
        then have "?page = history" by (auto simp: min_def split: if_splits)
        with nr ne c True show ?thesis by (subst fetchLoop.simps) (simp add: min_def)
      next
        case False
        then have len: "length ?page = 100" "100 \<le> length history" by auto
        with lt have n': "?n' = n + 100" "?acc' = acc @ ?page" by (auto simp: min_def)
        from lt len "1.prems" have b: "int (n + 100) < l" by linarith
        from "1.hyps" [OF ne c [symmetric] nr False "1.prems"(1)] b n'
        have ih: "fetchLoop None (Some l) (drop 100 history) (acc @ ?page, n + 100) =
          ((acc @ ?page) @ take (nat l - (n + 100)) (drop 100 history),
           (n + 100) + min (nat l - (n + 100)) (length (drop 100 history)))" by simp
        have t: "take (nat l - n) history = ?page @ take (nat l - (n + 100)) (drop 100 history)"
        proof -
          have "take (nat l - n) history = take (100 + (nat l - (n + 100))) history"
            using lt len by simp
          also have "\<dots> = ?page @ take (nat l - (n + 100)) (drop 100 history)"
            by (rule take_add)
          finally show ?thesis .
        qed
        have m: "n + min (nat l - n) (length history) =
            (n + 100) + min (nat l - (n + 100)) (length history - 100)"
          using lt len by (auto simp: min_def)
        have "fetchLoop None (Some l) history (acc, n) =
            fetchLoop None (Some l) (drop 100 history) (?acc', ?n')"
          using nr ne False by (subst fetchLoop.simps) (simp only: c if_False prod.case)
        also have "\<dots> = fetchLoop None (Some l) (drop 100 history) (acc @ ?page, n + 100)"
          by (simp only: n')
        also note ih
        also have "((acc @ ?page) @ take (nat l - (n + 100)) (drop 100 history),
           (n + 100) + min (nat l - (n + 100)) (length (drop 100 history))) =
           (acc @ take (nat l - n) history, n + min (nat l - n) (length history))"
          by (simp only: t m append_assoc length_drop)
        finally show ?thesis .
      qed
    qed
  qed
qed

lemma parseInt_50: "parseInt ''50'' = Some 50"
  by code_simp

lemma processLog_hola: "content m = ''hola'' \<Longrightarrow> processLog m st = (st, False)"
proof -
  assume c: "content m = ''hola''"
  have "\<not> isSaleLine ''hola''" "\<not> isNameLine ''hola''" by code_simp+
  with c show ?thesis by (simp add: processLog_def saleBlock_def nameBlock_def)
qed

lemma processAll_hola:
  "\<forall>m \<in> set ms. content m = ''hola'' \<Longrightarrow> processAll (ms @ rest) st p = processAll rest st p"
  by (induction ms) (simp_all add: processLog_hola)

text \<open>
  C8: \<^verbatim>\<open>!leer cantidad 50\<close> answers counts, of which the number of messages read is at
  most 50, and is 50 when the history holds more than 50 messages; and in every run of
  the command that answers counts, by date or by count, the number of messages
  processed as sales is at most the number of messages read.
\<close>

theorem leer_counts:
  "(\<exists>st1 t1 p1. leer parseDate ''cantidad'' ''50'' history st = Inr (st1, t1, p1) \<and> t1 \<le> 50 \<and>
      (50 < length history \<longrightarrow> t1 = 50)) \<and>
   (leer parseDate subCmd val history st = Inr (st', t, p) \<longrightarrow> p \<le> t)"
proof -
  obtain st1 t1 p1 where r: "readHistory None (Some 50) history st = (st1, t1, p1)"
    by (cases "readHistory None (Some 50) history st") auto
  have l: "leer parseDate ''cantidad'' ''50'' history st = Inr (st1, t1, p1)"
    by (simp add: leer_def parseInt_50 r)
  from readHistory_limit [OF r] have b: "t1 \<le> 50" by simp
  have f: "fetchLoop None (Some 50) history ([], 0) = (take 50 history, min 50 (length history))"
    using fetchLoop_exact [of 50 0 history "[]"] by simp
  from r f have "t1 = min 50 (length history)"
    by (auto simp: readHistory_def split: prod.splits)
  then have e: "50 < length history \<longrightarrow> t1 = 50" by simp
  have c: "leer parseDate subCmd val history st = Inr (st', t, p) \<longrightarrow> p \<le> t"
    by (auto simp: leer_def dest: readHistory_counts split: if_splits option.splits)
  from l b e c show ?thesis by blast
qed

text \<open>A history of 51 messages, the newest a sale of 150: 50 messages are read and one
  is a sale.\<close>

theorem leer_counts_witness:
  "50 < length (\<lparr>content = ''Ana ha pagado una factura de [ABC12345] por $150'', createdAt = 100, msgId = ''m100''\<rparr> #
                map (\<lambda>i. \<lparr>content = ''hola'', createdAt = 99 - int i, msgId = replicate (Suc i) CHR ''1''\<rparr>) [0..<50]) \<and>
   leer (\<lambda>v. None) ''cantidad'' ''50''
     (\<lparr>content = ''Ana ha pagado una factura de [ABC12345] por $150'', createdAt = 100, msgId = ''m100''\<rparr> #
      map (\<lambda>i. \<lparr>content = ''hola'', createdAt = 99 - int i, msgId = replicate (Suc i) CHR ''1''\<rparr>) [0..<50])
     (emptyState 0) =
     Inr (\<lparr>employees = [(''ABC12345'', \<lparr>name = ''ABC12345'',
            sales = [\<lparr>amount = 150, date = 100, messageId = ''m100''\<rparr>]\<rparr>)], weekStartDate = 0\<rparr>, 50, 1) \<and>
   (1::nat) \<le> 50"
proof -
  let ?s = "\<lparr>content = ''Ana ha pagado una factura de [ABC12345] por $150'', createdAt = 100, msgId = ''m100''\<rparr>"
  let ?f = "\<lambda>i. \<lparr>content = ''hola'', createdAt = 99 - int i, msgId = replicate (Suc i) CHR ''1''\<rparr>"
  let ?h = "?s # map ?f [0..<50]"
  let ?st = "\<lparr>employees = [(''ABC12345'', \<lparr>name = ''ABC12345'',
            sales = [\<lparr>amount = 150, date = 100, messageId = ''m100''\<rparr>]\<rparr>)], weekStartDate = 0\<rparr>"
  have h1: "50 < length ?h" by simp
  have f: "fetchLoop None (Some 50) ?h ([], 0) = (take 50 ?h, min 50 (length ?h))"
    using fetchLoop_exact [of 50 0 ?h "[]"] by simp
  have t: "rev (take 50 ?h) = rev (map ?f [0..<49]) @ [?s]"
    by (simp add: take_map)
  have a: "\<forall>m \<in> set (rev (map ?f [0..<49])). content m = ''hola''" by simp
  have p: "processAll [?s] (emptyState 0) 0 = (?st, 1)" by code_simp
  have "processAll (rev (take 50 ?h)) (emptyState 0) 0 = (?st, 1)"
    unfolding t processAll_hola [OF a] by (rule p)
  with f have "readHistory None (Some 50) ?h (emptyState 0) = (?st, 50, 1)"
    by (simp add: readHistory_def)
  then have h2: "leer (\<lambda>v. None) ''cantidad'' ''50'' ?h (emptyState 0) = Inr (?st, 50, 1)"
    by (simp add: leer_def parseInt_50)
  from leer_counts [of "\<lambda>v. None" ?h "emptyState 0" "''cantidad''" "''50''" ?st 50 1] h2
  have "(1::nat) \<le> 50" by blast
  with h1 h2 show ?thesis by blast
qed

section \<open>Properties of \<^verbatim>\<open>calculateTotals\<close>\<close>

text \<open>The sort keeps the elements and orders them; the double nearest to a number is
  within a relative error of \<open>2^-53\<close> of it, so that the bonus computed on doubles is the
  exact rounding whenever the exact value is not half-way between two integers.\<close>

lemma mset_insertBy: "mset (insertBy cmp x ys) = add_mset x (mset ys)"
  by (induction ys) simp_all

lemma mset_sortBy: "mset (sortBy cmp xs) = mset xs"
  unfolding sortBy_def by (induction xs) (simp_all add: mset_insertBy)

lemma set_insertBy: "set (insertBy cmp x ys) = insert x (set ys)"
  by (induction ys) auto

lemma sorted_insertBy:
  assumes "sorted_wrt (\<lambda>a b. f b \<le> f a) ys"
  shows "sorted_wrt (\<lambda>a b. f b \<le> f a) (insertBy (\<lambda>a b. f b - f a) x ys)"
  using assms
proof (induction ys)
  case Nil
  then show ?case by simp
next
  case (Cons y ys)
  show ?case
  proof (cases "f y - f x \<le> 0")
    case True
    with Cons.prems show ?thesis by (auto intro: order_trans)
  next
    case False
    with Cons show ?thesis by (auto simp: set_insertBy)
  qed
qed

lemma sorted_sortBy:
  "sorted_wrt (\<lambda>a b. f b \<le> f a) (sortBy (\<lambda>a b. f b - f a) (xs :: 'a list))"
  for f :: "'a \<Rightarrow> int"
  unfolding sortBy_def by (induction xs) (simp_all add: sorted_insertBy)

lemma insertBy_sign:
  "(\<And>a b. cmp a b \<le> 0 \<longleftrightarrow> cmp' a b \<le> 0) \<Longrightarrow> insertBy cmp x ys = insertBy cmp' x ys"
  by (induction ys) simp_all

lemma sortBy_sign:
  assumes "\<And>a b. cmp a b \<le> 0 \<longleftrightarrow> cmp' a b \<le> 0"
  shows "sortBy cmp xs = sortBy cmp' xs"
  unfolding sortBy_def by (induction xs) (simp_all add: insertBy_sign [OF assms])

text \<open>The order is the one of the exact differences.\<close>

lemma calculateTotals_exact:
  "calculateTotals rate st =
     sortBy (\<lambda>a b. totalSales b - totalSales a) (map (resultOf rate) (employees st))"
  unfolding calculateTotals_def by (rule sortBy_sign) (rule doubleOf_sign)

lemma set_calculateTotals:
  "set (calculateTotals rate st) = resultOf rate ` set (employees st)"
proof -
  have "set (calculateTotals rate st) = set_mset (mset (calculateTotals rate st))" by simp
  also have "\<dots> = set_mset (mset (map (resultOf rate) (employees st)))"
    by (simp only: calculateTotals_def mset_sortBy)
  finally show ?thesis by simp
qed

lemma bonusOf_close:
  assumes r: "0 \<le> r" and T: "0 \<le> T" and small: "T * r < 2 ^ 51"
  shows "\<bar>toDouble (of_int T * toDouble (of_int r / 100)) - of_int (T * r) / 100\<bar> \<le> 3 / 400"
proof -
  define e :: rat where "e = 1 / 2 ^ 53"
  define x :: rat where "x = of_int (T * r) / 100"
  define y :: rat where "y = toDouble (of_int r / 100)"
  define w :: rat where "w = of_int T * y"
  define z :: rat where "z = toDouble w"
  have e: "0 < e" "e \<le> 1" by (simp_all add: e_def)
  have x0: "0 \<le> x" using r T by (simp add: x_def)
  have xs: "x \<le> 2 ^ 51 / 100"
  proof -
    have "(of_int (T * r) :: rat) \<le> of_int (2 ^ 51)" using small by (simp only: of_int_le_iff)
    then show ?thesis by (simp add: x_def)
  qed
  have ey: "\<bar>y - of_int r / 100\<bar> \<le> (of_int r / 100) * e"
    using toDouble_error [of "of_int r / 100"] r by (simp add: y_def e_def)
  have ew: "\<bar>w - x\<bar> \<le> x * e"
  proof -
    have "w - x = of_int T * (y - of_int r / 100)"
      by (simp add: w_def x_def right_diff_distrib)
    then have "\<bar>w - x\<bar> = of_int T * \<bar>y - of_int r / 100\<bar>"
      using T by (simp add: abs_mult)
    also have "\<dots> \<le> of_int T * ((of_int r / 100) * e)"
      using ey T by (intro mult_left_mono) simp_all
    also have "\<dots> = x * e" by (simp add: x_def)
    finally show ?thesis .
  qed
  have aw: "\<bar>w\<bar> \<le> x + x * e" using ew x0 by linarith
  have ez: "\<bar>z - w\<bar> \<le> (x + x * e) * e"
  proof -
    have "\<bar>z - w\<bar> \<le> \<bar>w\<bar> * e" using toDouble_error [of w] by (simp add: z_def e_def)
    also have "\<dots> \<le> (x + x * e) * e" using aw e by (intro mult_right_mono) simp_all
    finally show ?thesis .
  qed
  have xee: "x * e * e \<le> x * e"
  proof -
    have "x * e * e \<le> x * e * 1" using x0 e by (intro mult_left_mono) simp_all
    then show ?thesis by simp
  qed
  have "\<bar>z - x\<bar> \<le> \<bar>z - w\<bar> + \<bar>w - x\<bar>" by linarith
  also have "\<dots> \<le> (x + x * e) * e + x * e" using ez ew by linarith
  also have "\<dots> = 2 * (x * e) + x * e * e" by (simp add: algebra_simps)
  also have "\<dots> \<le> 3 * (x * e)" using xee by linarith
  also have "\<dots> \<le> 3 * ((2 ^ 51 / 100) * e)"
    using xs e by (intro mult_left_mono mult_right_mono) simp_all
  also have "\<dots> = 3 / 400" by (simp add: e_def)
  finally show ?thesis by (simp only: z_def w_def y_def x_def)
qed

lemma bonusOf_exact:
  assumes r: "0 \<le> r" and T: "0 \<le> T" and small: "T * r < 2 ^ 51" and nohalf: "(T * r) mod 100 \<noteq> 50"
  shows "bonusOf r T = (T * r + 50) div 100"
proof -
  define x :: rat where "x = of_int (T * r) / 100"
  define z :: rat where "z = toDouble (of_int T * toDouble (of_int r / 100))"
  have close: "\<bar>z - x\<bar> \<le> 3 / 400"
    unfolding z_def x_def by (rule bonusOf_close [OF r T small])
  define N where "N = (T * r + 50) div 100"
  define p where "p = (T * r + 50) mod 100"
  have "p \<noteq> 0"
  proof
    assume "p = 0"
    then have "T * r + 50 = 100 * N" unfolding N_def p_def by (simp add: mod_eq_0_iff_dvd)
    then have "T * r = 100 * (N - 1) + 50" by simp
    then have "(T * r) mod 100 = 50" by (simp only: mod_mult_self4) simp
    with nohalf show False by simp
  qed
  moreover have "0 \<le> p" "p < 100" unfolding p_def by simp_all
  ultimately have p: "1 \<le> p" "p \<le> 99" by simp_all
  have "T * r + 50 = 100 * N + p" unfolding N_def p_def by simp
  then have "(of_int (T * r) :: rat) + 50 = 100 * of_int N + of_int p"
    by (metis of_int_add of_int_mult of_int_numeral)
  then have xp: "x + 1 / 2 = of_int N + of_int p / 100" by (simp add: x_def field_simps)
  have pl: "(1::rat) \<le> of_int p" "(of_int p :: rat) \<le> 99" using p by simp_all
  define d :: rat where "d = of_int p / 100"
  have d: "1 / 100 \<le> d" "d \<le> 99 / 100" using pl by (simp_all add: d_def)
  from xp have xd: "x + 1 / 2 = of_int N + d" by (simp only: d_def)
  have "of_int N \<le> z + 1 / 2 \<and> z + 1 / 2 < of_int N + 1"
    using close xd d by linarith
  then have "\<lfloor>z + 1 / 2\<rfloor> = N" by (simp add: floor_unique)
  then show ?thesis
    by (simp add: bonusOf_def mathRound_def z_def N_def)
qed


text \<open>At an exact half the bonus goes up, as \<^verbatim>\<open>Math.round\<close> does, unless the double
  product lies below the exact product; then the bonus is one less.\<close>

lemma bonusOf_half:
  assumes r: "0 \<le> r" and T: "0 \<le> T" and small: "T * r < 2 ^ 51" and half: "(T * r) mod 100 = 50"
  shows "bonusOf r T =
           (if toDouble (of_int T * toDouble (of_int r / 100)) < of_int (T * r) / 100
            then (T * r + 50) div 100 - 1 else (T * r + 50) div 100)"
proof -
  define x :: rat where "x = of_int (T * r) / 100"
  define z :: rat where "z = toDouble (of_int T * toDouble (of_int r / 100))"
  have close: "\<bar>z - x\<bar> \<le> 3 / 400"
    unfolding z_def x_def by (rule bonusOf_close [OF r T small])
  define N where "N = (T * r + 50) div 100"
  have "(T * r + 50) mod 100 = 0"
  proof -
    have "(T * r + 50) mod 100 = ((T * r) mod 100 + 50) mod 100" by (simp add: mod_add_left_eq)
    also have "\<dots> = 0" by (simp add: half)
    finally show ?thesis .
  qed
  then have "T * r + 50 = 100 * N" unfolding N_def by (simp add: mod_eq_0_iff_dvd)
  then have "(of_int (T * r) :: rat) + 50 = 100 * of_int N"
    by (metis of_int_add of_int_mult of_int_numeral)
  then have xp: "x + 1 / 2 = of_int N" by (simp add: x_def field_simps)
  have b: "bonusOf r T = \<lfloor>z + 1 / 2\<rfloor>" by (simp add: bonusOf_def mathRound_def z_def)
  have c: "(toDouble (of_int T * toDouble (of_int r / 100)) < of_int (T * r) / 100) = (z < x)"
    by (simp only: z_def x_def)
  show ?thesis
  proof (cases "z < x")
    case True
    have "of_int (N - 1) \<le> z + 1 / 2 \<and> z + 1 / 2 < of_int (N - 1) + 1"
      using close xp True by simp
    then have "\<lfloor>z + 1 / 2\<rfloor> = N - 1" by (simp only: floor_unique)
    with True show ?thesis unfolding c b N_def [symmetric] by simp
  next
    case False
    have "of_int N \<le> z + 1 / 2 \<and> z + 1 / 2 < of_int N + 1"
      using close xp False by linarith
    then have "\<lfloor>z + 1 / 2\<rfloor> = N" by (simp add: floor_unique)
    with False show ?thesis unfolding c b N_def [symmetric] by simp
  qed
qed

lemma bonusSpec_div: "bonusSpec rate tot = (tot * rate + 50) div 100"
proof -
  have "of_int (tot * rate) / (100::rat) + 1 / 2 = of_int (tot * rate + 50) / of_int 100"
    by simp
  then show ?thesis unfolding bonusSpec_def by (simp only: floor_divide_of_int_eq)
qed

lemma bonusOf_bonusSpec:
  assumes "0 \<le> rate" "0 \<le> tot" "tot * rate < 2 ^ 51" "(tot * rate) mod 100 \<noteq> 50"
  shows "bonusOf rate tot = bonusSpec rate tot"
  using bonusOf_exact [OF assms] by (simp only: bonusSpec_div)

text \<open>What \<^verbatim>\<open>calculateTotals\<close> returns for every table and every rate: one line per
  employee, sorted by \<^verbatim>\<open>totalSales\<close>, the largest first.  \<^verbatim>\<open>totalSales\<close> is the sum
  of the amounts of the employee, each addition rounded to a double, hence the exact
  sum as long as no amount is negative and the sum does not exceed \<open>2^53\<close>.  \<^verbatim>\<open>bonus\<close>
  is the result of \<^verbatim>\<open>Math.round\<close> on the double product; for a rate and a total that
  are not negative with \<open>totalSales * rate < 2^51\<close> it is
  \<^verbatim>\<open>round(totalSales * rate / 100)\<close> whenever \<open>totalSales * rate / 100\<close> is not exactly
  half-way between two integers, and at an exact half it is that number or one less
  according to whether the double product reaches the half or lies below it.\<close>

lemma calculateTotals_shape:
  "length (calculateTotals rate st) = length (employees st) \<and>
   mset (calculateTotals rate st) = mset (map (resultOf rate) (employees st)) \<and>
   sorted_wrt (\<lambda>a b. totalSales b \<le> totalSales a) (calculateTotals rate st) \<and>
   (\<forall>ln \<in> set (calculateTotals rate st). \<exists>(k, e) \<in> set (employees st).
      dni ln = k \<and> rname ln = name e \<and> salesCount ln = length (sales e) \<and>
      totalSales ln = totalOf (sales e) \<and>
      ((\<forall>s \<in> set (sales e). 0 \<le> amount s) \<and> sum_list (map amount (sales e)) \<le> 2 ^ 53 \<longrightarrow>
         totalSales ln = sum_list (map amount (sales e))) \<and>
      bonus ln = bonusOf rate (totalSales ln) \<and>
      (0 \<le> rate \<and> 0 \<le> totalSales ln \<and> totalSales ln * rate < 2 ^ 51 \<longrightarrow>
         ((totalSales ln * rate) mod 100 \<noteq> 50 \<longrightarrow> bonus ln = bonusSpec rate (totalSales ln)) \<and>
         ((totalSales ln * rate) mod 100 = 50 \<longrightarrow>
            bonus ln =
              (if toDouble (of_int (totalSales ln) * toDouble (of_int rate / 100))
                    < of_int (totalSales ln * rate) / 100
               then bonusSpec rate (totalSales ln) - 1 else bonusSpec rate (totalSales ln)))))"
proof -
  have m: "mset (calculateTotals rate st) = mset (map (resultOf rate) (employees st))"
    by (simp only: calculateTotals_def mset_sortBy)
  from m have "size (mset (calculateTotals rate st)) = size (mset (map (resultOf rate) (employees st)))"
    by simp
  then have l: "length (calculateTotals rate st) = length (employees st)" by simp
  have s: "sorted_wrt (\<lambda>a b. totalSales b \<le> totalSales a) (calculateTotals rate st)"
    unfolding calculateTotals_exact by (rule sorted_sortBy)
  have a: "\<forall>ln \<in> set (calculateTotals rate st). \<exists>(k, e) \<in> set (employees st).
      dni ln = k \<and> rname ln = name e \<and> salesCount ln = length (sales e) \<and>
      totalSales ln = totalOf (sales e) \<and>
      ((\<forall>s \<in> set (sales e). 0 \<le> amount s) \<and> sum_list (map amount (sales e)) \<le> 2 ^ 53 \<longrightarrow>
         totalSales ln = sum_list (map amount (sales e))) \<and>
      bonus ln = bonusOf rate (totalSales ln) \<and>
      (0 \<le> rate \<and> 0 \<le> totalSales ln \<and> totalSales ln * rate < 2 ^ 51 \<longrightarrow>
         ((totalSales ln * rate) mod 100 \<noteq> 50 \<longrightarrow> bonus ln = bonusSpec rate (totalSales ln)) \<and>
         ((totalSales ln * rate) mod 100 = 50 \<longrightarrow>
            bonus ln =
              (if toDouble (of_int (totalSales ln) * toDouble (of_int rate / 100))
                    < of_int (totalSales ln * rate) / 100
               then bonusSpec rate (totalSales ln) - 1 else bonusSpec rate (totalSales ln))))"
  proof
    fix ln
    assume "ln \<in> set (calculateTotals rate st)"
    then obtain k e where ke: "(k, e) \<in> set (employees st)" and ln: "ln = resultOf rate (k, e)"
      unfolding set_calculateTotals by auto
    have f: "dni ln = k" "rname ln = name e" "salesCount ln = length (sales e)"
      "totalSales ln = totalOf (sales e)" "bonus ln = bonusOf rate (totalSales ln)"
      by (simp_all add: ln resultOf_def)
    have t: "(\<forall>s \<in> set (sales e). 0 \<le> amount s) \<and> sum_list (map amount (sales e)) \<le> 2 ^ 53 \<longrightarrow>
         totalSales ln = sum_list (map amount (sales e))"
    proof
      assume "(\<forall>s \<in> set (sales e). 0 \<le> amount s) \<and> sum_list (map amount (sales e)) \<le> 2 ^ 53"
      then have "totalOf (sales e) = sum_list (map amount (sales e))"
        by (elim conjE) (rule totalOf_sum)
      with f(4) show "totalSales ln = sum_list (map amount (sales e))" by simp
    qed
    have b: "0 \<le> rate \<and> 0 \<le> totalSales ln \<and> totalSales ln * rate < 2 ^ 51 \<longrightarrow>
         ((totalSales ln * rate) mod 100 \<noteq> 50 \<longrightarrow> bonus ln = bonusSpec rate (totalSales ln)) \<and>
         ((totalSales ln * rate) mod 100 = 50 \<longrightarrow>
            bonus ln =
              (if toDouble (of_int (totalSales ln) * toDouble (of_int rate / 100))
                    < of_int (totalSales ln * rate) / 100
               then bonusSpec rate (totalSales ln) - 1 else bonusSpec rate (totalSales ln)))"
    proof
      assume h: "0 \<le> rate \<and> 0 \<le> totalSales ln \<and> totalSales ln * rate < 2 ^ 51"
      then have h1: "0 \<le> rate" and h2: "0 \<le> totalSales ln" and h3: "totalSales ln * rate < 2 ^ 51"
        by simp_all
      have "(totalSales ln * rate) mod 100 \<noteq> 50 \<longrightarrow> bonus ln = bonusSpec rate (totalSales ln)"
      proof
        assume "(totalSales ln * rate) mod 100 \<noteq> 50"
        from bonusOf_bonusSpec [OF h1 h2 h3 this] f(5)
        show "bonus ln = bonusSpec rate (totalSales ln)" by simp
      qed
      moreover have "(totalSales ln * rate) mod 100 = 50 \<longrightarrow>
            bonus ln =
              (if toDouble (of_int (totalSales ln) * toDouble (of_int rate / 100))
                    < of_int (totalSales ln * rate) / 100
               then bonusSpec rate (totalSales ln) - 1 else bonusSpec rate (totalSales ln))"
      proof
        assume "(totalSales ln * rate) mod 100 = 50"
        from bonusOf_half [OF h1 h2 h3 this] f(5)
        show "bonus ln =
              (if toDouble (of_int (totalSales ln) * toDouble (of_int rate / 100))
                    < of_int (totalSales ln * rate) / 100
               then bonusSpec rate (totalSales ln) - 1 else bonusSpec rate (totalSales ln))"
          by (simp only: bonusSpec_div)
      qed
      ultimately show "((totalSales ln * rate) mod 100 \<noteq> 50 \<longrightarrow> bonus ln = bonusSpec rate (totalSales ln)) \<and>
         ((totalSales ln * rate) mod 100 = 50 \<longrightarrow>
            bonus ln =
              (if toDouble (of_int (totalSales ln) * toDouble (of_int rate / 100))
                    < of_int (totalSales ln * rate) / 100
               then bonusSpec rate (totalSales ln) - 1 else bonusSpec rate (totalSales ln)))"
        by (rule conjI)
    qed
    from f t b have "dni ln = k \<and> rname ln = name e \<and> salesCount ln = length (sales e) \<and>
      totalSales ln = totalOf (sales e) \<and>
      ((\<forall>s \<in> set (sales e). 0 \<le> amount s) \<and> sum_list (map amount (sales e)) \<le> 2 ^ 53 \<longrightarrow>
         totalSales ln = sum_list (map amount (sales e))) \<and>
      bonus ln = bonusOf rate (totalSales ln) \<and>
      (0 \<le> rate \<and> 0 \<le> totalSales ln \<and> totalSales ln * rate < 2 ^ 51 \<longrightarrow>
         ((totalSales ln * rate) mod 100 \<noteq> 50 \<longrightarrow> bonus ln = bonusSpec rate (totalSales ln)) \<and>
         ((totalSales ln * rate) mod 100 = 50 \<longrightarrow>
            bonus ln =
              (if toDouble (of_int (totalSales ln) * toDouble (of_int rate / 100))
                    < of_int (totalSales ln * rate) / 100
               then bonusSpec rate (totalSales ln) - 1 else bonusSpec rate (totalSales ln))))"
      by (intro conjI)
    with ke show "\<exists>(k, e) \<in> set (employees st).
      dni ln = k \<and> rname ln = name e \<and> salesCount ln = length (sales e) \<and>
      totalSales ln = totalOf (sales e) \<and>
      ((\<forall>s \<in> set (sales e). 0 \<le> amount s) \<and> sum_list (map amount (sales e)) \<le> 2 ^ 53 \<longrightarrow>
         totalSales ln = sum_list (map amount (sales e))) \<and>
      bonus ln = bonusOf rate (totalSales ln) \<and>
      (0 \<le> rate \<and> 0 \<le> totalSales ln \<and> totalSales ln * rate < 2 ^ 51 \<longrightarrow>
         ((totalSales ln * rate) mod 100 \<noteq> 50 \<longrightarrow> bonus ln = bonusSpec rate (totalSales ln)) \<and>
         ((totalSales ln * rate) mod 100 = 50 \<longrightarrow>
            bonus ln =
              (if toDouble (of_int (totalSales ln) * toDouble (of_int rate / 100))
                    < of_int (totalSales ln * rate) / 100
               then bonusSpec rate (totalSales ln) - 1 else bonusSpec rate (totalSales ln))))"
      by blast
  qed
  from l m s a show ?thesis by (intro conjI)
qed

text \<open>The totals 1000 and 500 at the rate 20: the line of 1000 with bonus 200, then the
  line of 500 with bonus 100.\<close>

lemma calculateTotals_example:
  "calculateTotals 20
     \<lparr>employees =
        [(''BBB00002'', \<lparr>name = ''B'', sales = [\<lparr>amount = 500, date = 1, messageId = ''m1''\<rparr>]\<rparr>),
         (''AAA00001'', \<lparr>name = ''A'', sales = [\<lparr>amount = 400, date = 2, messageId = ''m2''\<rparr>,
                                                \<lparr>amount = 600, date = 3, messageId = ''m3''\<rparr>]\<rparr>)],
      weekStartDate = 0\<rparr> =
     [\<lparr>dni = ''AAA00001'', rname = ''A'', salesCount = 2, totalSales = 1000, bonus = 200\<rparr>,
      \<lparr>dni = ''BBB00002'', rname = ''B'', salesCount = 1, totalSales = 500, bonus = 100\<rparr>]"
  by code_simp

text \<open>Exact halves that go up, and exact halves that do not.\<close>

lemma bonusOf_half_examples:
  "bonusOf 50 1 = 1 \<and> bonusSpec 50 1 = 1 \<and>
   bonusOf 10 5 = 1 \<and> bonusSpec 10 5 = 1 \<and>
   bonusOf 20 1000 = 200 \<and> bonusSpec 20 1000 = 200 \<and>
   bonusOf 29 50 = 14 \<and> bonusSpec 29 50 = 15 \<and>
   bonusOf 35 90 = 31 \<and> bonusSpec 35 90 = 32"
  by code_simp

text \<open>
  C4: for every table and every rate between 0 and 100 the bonus calculator returns one
  line per employee, with \<^verbatim>\<open>totalSales\<close> the sum of the amounts of the employee and
  \<^verbatim>\<open>bonus\<close> equal to \<^verbatim>\<open>round(totalSales * rate / 100)\<close>, a half going up, sorted by
  \<^verbatim>\<open>totalSales\<close>, the largest first.  The source does not compute this bonus at every
  exact half.  One sale line of 50 read from the empty table, at the rate 29: the exact
  value is 14.5, to be rounded to 15; the source multiplies doubles, the double nearest
  to 0.29 lies below 0.29, the product is the double 14.499999999999998, and the bonus
  returned is 14.
\<close>

theorem bonus_at_half_rounds_down:
  "calculateTotals 29
     (fst (processLog \<lparr>content = ''Ana ha pagado una factura de [ABC12345] por $50'', createdAt = 1, msgId = ''m1''\<rparr>
        (emptyState 0))) =
     [\<lparr>dni = ''ABC12345'', rname = ''ABC12345'', salesCount = 1, totalSales = 50, bonus = 14\<rparr>] \<and>
   bonusSpec 29 50 = 15"
  by code_simp

section \<open>Where \<^verbatim>\<open>src/bot.js\<close> differs\<close>

text \<open>The older patterns take capitals only and no white space in the identifier, stop
  the amount at the first comma, exclude only the small \<^verbatim>\<open>h\<close> from a name, and a name
  is stored only for an employee that exists.  A rejected sale line goes on to the name
  update there as well.\<close>

lemma extractDNI_botjs_examples:
  "extractDNI_botjs ''[ABC12345]'' = Some ''ABC12345'' \<and>
   extractDNI_botjs ''[abc 12345]'' = None \<and>
   extractDNI_botjs ''[ a b c 1 2 3 4 5 ]'' = None"
  by code_simp

lemma extractAmount_botjs_examples:
  "extractAmount_botjs ''$1,234.99'' = Some 1 \<and> extractAmount_botjs ''$150'' = Some 150"
  by code_simp

lemma extractName_botjs_examples:
  "extractName_botjs ''[ABC12345] Hugo ha retirado $20'' = Some ''Hugo'' \<and>
   extractName_botjs ''[ABC12345] Juan Perez ha retirado $20'' = Some ''Juan Perez''"
  by code_simp

lemma processLogMessage_examples:
  "processLogMessage ''[ABC12345] Juan Perez ha retirado $20'' [] = ([], False) \<and>
   processLogMessage ''[ABC12345] Juan Perez ha retirado el vuelto y ha pagado una factura de [caja]''
     [(''ABC12345'', \<lparr>ename = ''ABC12345'', esales = 150\<rparr>)] =
     ([(''ABC12345'', \<lparr>ename = ''Juan Perez'', esales = 150\<rparr>)], False) \<and>
   processLogMessage ''Ana ha pagado una factura de [ABC12345] por $150''
     [(''ABC12345'', \<lparr>ename = ''ABC12345'', esales = 150\<rparr>)] =
     ([(''ABC12345'', \<lparr>ename = ''ABC12345'', esales = 300\<rparr>)], True)"
  by code_simp

end
